theory Spec2Isabelle
  imports Main
begin

section \<open>JavaScript values, promise states and jobs\<close>

text \<open>
  The development embeds the \<open>dPromise\<close> decorator of \<open>src/index.ts\<close> (the
  revision with the \<open>AbortError\<close> class and the \<open>eagerInit\<close> option, which
  is the one the repository's test suite imports) together with the accessor
  decorators \<open>dRef\<close> and \<open>dShallowRef\<close>.

  A JavaScript value is one of a few primitive shapes. \<open>JUndefined\<close> is the
  value \<open>undefined\<close>: the shallow refs \<open>_result\<close> and \<open>_error\<close> hold
  \<open>R | undefined\<close> and \<open>Error | undefined\<close>, so "absent" is this value.
  \<open>JError m\<close> is \<open>new Error(m)\<close>; \<open>JAbortError m\<close> is an instance of
  the subclass \<open>AbortError\<close> whose inherited message field is \<open>m\<close>.
\<close>

datatype jsval = JUndefined | JNum int | JStr string | JError string | JAbortError string

text \<open>\<open>class AbortError extends Error { constructor() { super('Aborted'); } }\<close>\<close>

definition new_AbortError :: jsval where
  "new_AbortError = JAbortError ''Aborted''"



datatype outcome = Fulfilled jsval | Rejected jsval

datatype pstate = Pending | Settled outcome

type_synonym waiter = nat
type_synonym cid = nat

text \<open>
  An abort listener is a callback \<open>() => void\<close>.  It is known by a number,
  and when it is called it either returns or throws the given error.  A
  listener's own code does not call the wrapper.
\<close>

datatype listener = Listener (lid: nat) (thrown: "jsval option")

text \<open>
  One invocation of \<open>target\<close> builds one chain of promises,
  \<open>new Promise(executor).then(..).catch(..).finally(..)\<close>.  A chain records the
  state of each promise in it:
  \<^item> \<open>tp\<close>: the promise returned by \<open>target.call(this, ...args)\<close>, absent
    while the target runs and when the call threw;
  \<^item> \<open>p0\<close>: \<open>new Promise(executor)\<close>, settled by \<open>resolve\<close>/\<open>reject\<close>, and
    \<open>p0_then\<close>: whether the reaction of \<open>.then(result => ..)\<close> is
    registered on it, which happens only after the executor has returned;
  \<^item> \<open>p1\<close>: the promise of \<open>.then(result => ..)\<close>;
  \<^item> \<open>p2\<close>: the promise of \<open>.catch(error => ..)\<close>;
  \<^item> \<open>pf\<close>: the promise \<open>Promise.resolve(onFinally()).then(thunk)\<close> that the
    reaction of \<open>finally\<close> returns, and \<open>pf_then\<close>: whether a reaction is
    registered on it;
  \<^item> \<open>p3\<close>: the promise of \<open>.finally(..)\<close>, the one stored in
    \<open>promiseObject.promise\<close> and returned to callers; \<open>waiters\<close> are the
    reactions callers registered on it while it was pending.
  The identity of the returned promise is the index of its chain.
\<close>

record chain =
  tp :: "pstate option"
  p0 :: pstate
  p0_then :: bool
  p1 :: pstate
  p2 :: pstate
  pf :: pstate
  pf_then :: bool
  p3 :: pstate
  waiters :: "waiter list"

text \<open>
  The microtask queue holds promise reaction jobs.  Each job carries the
  settlement it reacts to, as the host's \<open>PromiseReactionJob\<close> does.
\<close>

datatype job =
    ResolveJob cid outcome
  | ThenJob cid outcome
  | CatchJob cid outcome
  | FinallyJob cid outcome
  | ThunkJob cid outcome
  | ThenableJob cid
  | SettleJob cid outcome
  | AwaitJob waiter cid outcome

text \<open>
  The fields that \<open>assignPromiseObject\<close> puts on the function object
  (interface \<open>PromiseObject\<close>).  \<open>resolve\<close> and \<open>reject\<close> are the resolving
  functions of \<open>p0\<close> of a chain, named by the chain.
\<close>

record PromiseObject =
  abortListeners :: "listener list"
  isPending :: bool
  error :: jsval
  result :: jsval
  promise :: "cid option"
  resolve :: "cid option"
  reject :: "cid option"

text \<open>
  The world of one decorated method of one instance: the function object's
  \<open>PromiseObject\<close> fields (\<open>None\<close> while it has no \<open>_isDPromise\<close>
  property), the chains built so far, the microtask queue, and five traces:
  the argument lists \<open>target\<close> was invoked with, the abort listeners called,
  the settlements handed to awaiting callers, what a target saw of the pending
  flag and the stored promise when it looked from inside its call, and the
  promises a target got back from calls it made from inside its call.
\<close>

record world =
  promiseObject :: "PromiseObject option"
  chains :: "chain list"
  queue :: "job list"
  invoked :: "jsval list list"
  fired :: "listener list"
  delivered :: "(waiter \<times> cid \<times> outcome) list"
  observed :: "(bool \<times> cid option) list"
  received :: "cid list"

text \<open>
  What \<open>target.call(this, ...args)\<close> does synchronously.  The target is the
  user's method: before it returns it may use the wrapper that is bound to
  its own name on \<open>this\<close>.  It may call it (\<open>ReCall\<close>, with what the target
  does in that inner invocation, should there be one), abort it
  (\<open>ReAbort\<close>), register a listener (\<open>ReOnAbort\<close>) or read the pending flag
  and the stored promise (\<open>Observe\<close>; a watcher of the flag's ref that is
  flushed synchronously reads them at the same moment).  Then it throws, or it
  returns a promise that is still pending, or one that is already settled (an
  \<open>async\<close> function without \<open>await\<close>).
\<close>

datatype ending = Throws jsval | ReturnsPending | ReturnsSettled outcome

datatype action = ReCall behaviour "jsval list" | ReAbort | ReOnAbort listener | Observe
  and behaviour = Behaviour "action list" ending

section \<open>The wrapper\<close>

definition new_world :: world where
  "new_world = \<lparr>promiseObject = None, chains = [], queue = [], invoked = [],
                 fired = [], delivered = [], observed = [], received = []\<rparr>"

definition new_promiseObject :: PromiseObject where
  "new_promiseObject = \<lparr>abortListeners = [], isPending = False, error = JUndefined,
       result = JUndefined, promise = None, resolve = None, reject = None\<rparr>"

definition assignPromiseObject :: "world \<Rightarrow> world" where
  "assignPromiseObject w = w\<lparr>promiseObject := Some new_promiseObject\<rparr>"

definition upd_po :: "(PromiseObject \<Rightarrow> PromiseObject) \<Rightarrow> world \<Rightarrow> world" where
  "upd_po f w = w\<lparr>promiseObject := map_option f (promiseObject w)\<rparr>"

definition upd_chain :: "cid \<Rightarrow> (chain \<Rightarrow> chain) \<Rightarrow> world \<Rightarrow> world" where
  "upd_chain c f w =
     (if c < length (chains w) then w\<lparr>chains := (chains w)[c := f (chains w ! c)]\<rparr> else w)"

definition enqueue :: "job list \<Rightarrow> world \<Rightarrow> world" where
  "enqueue js w = w\<lparr>queue := queue w @ js\<rparr>"

text \<open>
  The resolving functions of \<open>p0\<close>: the first call settles the promise and
  queues the reaction of \<open>.then(result => ..)\<close> if it is registered already;
  later calls do nothing.
\<close>

definition settle_p0 :: "cid \<Rightarrow> outcome \<Rightarrow> world \<Rightarrow> world" where
  "settle_p0 c oc w =
     (if c < length (chains w) \<and> p0 (chains w ! c) = Pending
      then (let w1 = upd_chain c (\<lambda>ch. ch\<lparr>p0 := Settled oc\<rparr>) w
            in if p0_then (chains w ! c) then enqueue [ThenJob c oc] w1 else w1)
      else w)"

text \<open>
  \<open>.then(result => ..)\<close> on \<open>p0\<close>, once \<open>new Promise\<close> has returned: the
  reaction is kept while \<open>p0\<close> is pending and queued at once when the
  executor has settled it already.
\<close>

definition then_p0 :: "cid \<Rightarrow> world \<Rightarrow> world" where
  "then_p0 c w =
     (if c < length (chains w)
      then (case p0 (chains w ! c) of
              Pending \<Rightarrow> upd_chain c (\<lambda>ch. ch\<lparr>p0_then := True\<rparr>) w
            | Settled oc \<Rightarrow> enqueue [ThenJob c oc] w)
      else w)"

text \<open>
  \<open>_abortListeners.forEach((listener) => listener())\<close>: the listeners are
  called in order; one that throws ends the loop, and the error leaves
  \<open>forEach\<close>.  The result is the listeners that were called and the error,
  if any.
\<close>

fun call_listeners :: "listener list \<Rightarrow> listener list \<times> jsval option" where
  "call_listeners [] = ([], None)"
| "call_listeners (l # ls) =
     (case thrown l of
        Some e \<Rightarrow> ([l], Some e)
      | None \<Rightarrow> (case call_listeners ls of (cs, r) \<Rightarrow> (l # cs, r)))"

text \<open>
  \<open>abortPromise\<close>: return unless pending; call every listener in order; empty
  the list; call \<open>reject\<close> with a new \<open>AbortError\<close> if it is defined.  There
  is no \<open>try\<close>: when a listener throws, the error leaves \<open>abortPromise\<close>
  before the list is emptied and before \<open>reject\<close> is called.  The result is
  the error that left the function, if any, and the world it leaves.
\<close>

definition abortPromise :: "PromiseObject \<Rightarrow> world \<Rightarrow> jsval option \<times> world" where
  "abortPromise po w =
     (if \<not> isPending po then (None, w)
      else (case call_listeners (abortListeners po) of
              (cs, Some e) \<Rightarrow> (Some e, w\<lparr>fired := fired w @ cs\<rparr>)
            | (cs, None) \<Rightarrow>
                (let w1 = w\<lparr>fired := fired w @ cs\<rparr>;
                     w2 = w1\<lparr>promiseObject := Some (po\<lparr>abortListeners := []\<rparr>)\<rparr>
                 in (None, case reject po of
                             None \<Rightarrow> w2
                           | Some c \<Rightarrow> settle_p0 c (Rejected new_AbortError) w2))))"

definition not_found :: jsval where
  "not_found = JError ''Promise object not found''"

text \<open>
  The exported functions take the method as handle and throw unless it carries
  \<open>_isDPromise\<close>.  That error is \<open>Inl\<close>.  \<open>abort\<close> then gives what
  \<open>abortPromise\<close> gives: the error of a listener that threw, if any, and the
  world.
\<close>

definition abort :: "world \<Rightarrow> jsval + jsval option \<times> world" where
  "abort w = (case promiseObject w of
                None \<Rightarrow> Inl not_found
              | Some po \<Rightarrow> Inr (abortPromise po w))"

definition onAbort :: "listener \<Rightarrow> world \<Rightarrow> jsval + world" where
  "onAbort l w = (case promiseObject w of
                    None \<Rightarrow> Inl not_found
                  | Some po \<Rightarrow>
                      Inr (w\<lparr>promiseObject := Some (po\<lparr>abortListeners := abortListeners po @ [l]\<rparr>)\<rparr>))"

definition isPromisePending :: "world \<Rightarrow> jsval + bool" where
  "isPromisePending w = (case promiseObject w of
                           None \<Rightarrow> Inl not_found
                         | Some po \<Rightarrow> Inr (isPending po))"

definition getPromiseError :: "world \<Rightarrow> jsval + jsval" where
  "getPromiseError w = (case promiseObject w of
                          None \<Rightarrow> Inl not_found
                        | Some po \<Rightarrow> Inr (error po))"

definition getPromiseResult :: "world \<Rightarrow> jsval + jsval" where
  "getPromiseResult w = (case promiseObject w of
                           None \<Rightarrow> Inl not_found
                         | Some po \<Rightarrow> Inr (result po))"

text \<open>
  The initializer installed by \<open>dPromiseFunction\<close>: with \<open>eagerInit\<close> the
  fields are assigned at once, otherwise by the first call of \<open>makePromise\<close>
  (\<open>if (!promiseObject) promiseObject = assignPromiseObject(makePromise)\<close>,
  which is the first binding of \<open>makePromise\<close> below).  A callable that
  was never wrapped is a function object without the fields, as
  \<open>dPromiseFunction False\<close> is before its first call.
\<close>

definition dPromiseFunction :: "bool \<Rightarrow> world" where
  "dPromiseFunction eagerInit = (if eagerInit then assignPromiseObject new_world else new_world)"

definition new_chain :: chain where
  "new_chain = \<lparr>tp = None, p0 = Pending, p0_then = False, p1 = Pending, p2 = Pending,
                 pf = Pending, pf_then = False, p3 = Pending, waiters = []\<rparr>"

text \<open>
  The end of the executor, \<open>target.call(this, ...args).then(resolve, reject)\<close>,
  once the target has come to its end.  A throw leaves the executor, and
  \<open>new Promise\<close> rejects \<open>p0\<close> with it; a settled promise queues the
  reaction that calls \<open>resolve\<close>/\<open>reject\<close>; a pending promise keeps it
  until it settles.
\<close>

definition target_returns :: "ending \<Rightarrow> cid \<Rightarrow> world \<Rightarrow> world" where
  "target_returns e c w =
     (case e of
        Throws err \<Rightarrow> settle_p0 c (Rejected err) w
      | ReturnsPending \<Rightarrow> upd_chain c (\<lambda>ch. ch\<lparr>tp := Some Pending\<rparr>) w
      | ReturnsSettled oc \<Rightarrow>
          enqueue [ResolveJob c oc] (upd_chain c (\<lambda>ch. ch\<lparr>tp := Some (Settled oc)\<rparr>) w))"

text \<open>
  \<open>makePromise\<close>, in the order of the source.  The fields are assigned if
  they are missing; a stored promise is returned as it is.  Otherwise
  \<open>new Promise\<close> makes \<open>p0\<close> and runs the executor: it sets the pending
  flag, clears \<open>error\<close> and \<open>result\<close>, stores the resolving functions and
  calls the target.  The target's synchronous part runs here (\<open>run_actions\<close>),
  with the flag set and no promise stored yet; an error that leaves it (the
  error of a listener called by an abort it made) leaves the executor too.
  Then the three reactions are chained and only then is the promise stored.
\<close>

fun makePromise :: "behaviour \<Rightarrow> jsval list \<Rightarrow> world \<Rightarrow> cid \<times> world"
  and run_actions :: "action list \<Rightarrow> world \<Rightarrow> jsval option \<times> world" where
  "makePromise (Behaviour acts e) args w0 =
     (let po = (case promiseObject w0 of None \<Rightarrow> new_promiseObject | Some x \<Rightarrow> x);
          w = w0\<lparr>promiseObject := Some po\<rparr>
      in case promise po of
           Some p \<Rightarrow> (p, w)
         | None \<Rightarrow>
             (let c = length (chains w);
                  po1 = po\<lparr>isPending := True, error := JUndefined, result := JUndefined,
                            resolve := Some c, reject := Some c\<rparr>;
                  w1 = w\<lparr>promiseObject := Some po1, chains := chains w @ [new_chain],
                         invoked := invoked w @ [args]\<rparr>
              in case run_actions acts w1 of
                   (t, w2) \<Rightarrow>
                     (let w3 = (case t of
                                  Some err \<Rightarrow> settle_p0 c (Rejected err) w2
                                | None \<Rightarrow> target_returns e c w2);
                          w4 = then_p0 c w3
                      in (c, upd_po (\<lambda>x. x\<lparr>promise := Some c\<rparr>) w4))))"
| "run_actions [] w = (None, w)"
| "run_actions (ReCall beh args # as) w =
     (case makePromise beh args w of
        (p, w') \<Rightarrow> run_actions as (w'\<lparr>received := received w' @ [p]\<rparr>))"
| "run_actions (ReAbort # as) w =
     (case promiseObject w of
        None \<Rightarrow> (Some not_found, w)
      | Some po \<Rightarrow>
          (case abortPromise po w of
             (Some err, w') \<Rightarrow> (Some err, w')
           | (None, w') \<Rightarrow> run_actions as w'))"
| "run_actions (ReOnAbort l # as) w =
     (case onAbort l w of
        Inl err \<Rightarrow> (Some err, w)
      | Inr w' \<Rightarrow> run_actions as w')"
| "run_actions (Observe # as) w =
     run_actions as
       (w\<lparr>observed := observed w @
              [(case promiseObject w of
                  None \<Rightarrow> (False, None)
                | Some po \<Rightarrow> (isPending po, promise po))]\<rparr>)"

text \<open>
  The reactions, one per job.
  \<^item> \<open>ResolveJob\<close>: the reaction of the target's promise, \<open>resolve\<close> or
    \<open>reject\<close> of \<open>p0\<close>.
  \<^item> \<open>ThenJob\<close>: \<open>(result) => { _result.value = result; return result }\<close> on
    fulfilment; a rejection passes through.
  \<^item> \<open>CatchJob\<close>: \<open>(error) => { _error.value = error; throw error }\<close> on
    rejection; a fulfilment passes through.
  \<^item> \<open>FinallyJob\<close>: the callback of \<open>finally\<close> clears \<open>promise\<close>,
    \<open>resolve\<close>, \<open>reject\<close>, the listeners and the pending flag; its reaction
    then returns \<open>Promise.resolve(undefined).then(thunk)\<close>, which queues the
    thunk's job, and resolving \<open>p3\<close> with that promise queues the job that
    will call its \<open>then\<close>.
  \<^item> \<open>ThunkJob\<close>: the thunk returns the value or throws the reason; \<open>pf\<close>
    settles.
  \<^item> \<open>ThenableJob\<close>: \<open>pf.then(resolve, reject)\<close> with the resolving functions
    of \<open>p3\<close>.
  \<^item> \<open>SettleJob\<close>: \<open>p3\<close> settles and the reactions of its waiters are queued.
  \<^item> \<open>AwaitJob\<close>: a waiter receives the settlement.
\<close>

fun run_job :: "job \<Rightarrow> world \<Rightarrow> world" where
  "run_job (ResolveJob c oc) w = settle_p0 c oc w"
| "run_job (ThenJob c (Fulfilled v)) w =
     enqueue [CatchJob c (Fulfilled v)]
       (upd_chain c (\<lambda>ch. ch\<lparr>p1 := Settled (Fulfilled v)\<rparr>)
         (upd_po (\<lambda>po. po\<lparr>result := v\<rparr>) w))"
| "run_job (ThenJob c (Rejected e)) w =
     enqueue [CatchJob c (Rejected e)]
       (upd_chain c (\<lambda>ch. ch\<lparr>p1 := Settled (Rejected e)\<rparr>) w)"
| "run_job (CatchJob c (Fulfilled v)) w =
     enqueue [FinallyJob c (Fulfilled v)]
       (upd_chain c (\<lambda>ch. ch\<lparr>p2 := Settled (Fulfilled v)\<rparr>) w)"
| "run_job (CatchJob c (Rejected e)) w =
     enqueue [FinallyJob c (Rejected e)]
       (upd_chain c (\<lambda>ch. ch\<lparr>p2 := Settled (Rejected e)\<rparr>)
         (upd_po (\<lambda>po. po\<lparr>error := e\<rparr>) w))"
| "run_job (FinallyJob c oc) w =
     enqueue [ThunkJob c oc, ThenableJob c]
       (upd_po (\<lambda>po. po\<lparr>promise := None, resolve := None, reject := None,
                          abortListeners := [], isPending := False\<rparr>) w)"
| "run_job (ThunkJob c oc) w =
     (if c < length (chains w) \<and> pf (chains w ! c) = Pending
      then (let w1 = upd_chain c (\<lambda>ch. ch\<lparr>pf := Settled oc\<rparr>) w
            in if pf_then (chains w ! c) then enqueue [SettleJob c oc] w1 else w1)
      else w)"
| "run_job (ThenableJob c) w =
     (if c < length (chains w)
      then (case pf (chains w ! c) of
              Pending \<Rightarrow> upd_chain c (\<lambda>ch. ch\<lparr>pf_then := True\<rparr>) w
            | Settled oc \<Rightarrow> enqueue [SettleJob c oc] w)
      else w)"
| "run_job (SettleJob c oc) w =
     (if c < length (chains w) \<and> p3 (chains w ! c) = Pending
      then enqueue (map (\<lambda>x. AwaitJob x c oc) (waiters (chains w ! c)))
             (upd_chain c (\<lambda>ch. ch\<lparr>p3 := Settled oc, waiters := []\<rparr>) w)
      else w)"
| "run_job (AwaitJob x c oc) w = w\<lparr>delivered := delivered w @ [(x, c, oc)]\<rparr>"

text \<open>One turn of the microtask loop: the oldest job runs.\<close>

definition tick :: "world \<Rightarrow> world" where
  "tick w = (case queue w of [] \<Rightarrow> w | j # q \<Rightarrow> run_job j (w\<lparr>queue := q\<rparr>))"

text \<open>
  The environment settles the promise a target returned; the reaction
  registered by \<open>.then(resolve, reject)\<close> is queued.
\<close>

definition settle_op :: "cid \<Rightarrow> outcome \<Rightarrow> world \<Rightarrow> world" where
  "settle_op c oc w =
     (if c < length (chains w) \<and> tp (chains w ! c) = Some Pending
      then enqueue [ResolveJob c oc] (upd_chain c (\<lambda>ch. ch\<lparr>tp := Some (Settled oc)\<rparr>) w)
      else w)"

text \<open>
  A caller awaits a returned promise: the reaction is kept while the promise
  is pending and queued at once when it is settled.
\<close>

definition await :: "waiter \<Rightarrow> cid \<Rightarrow> world \<Rightarrow> world" where
  "await x c w =
     (if c < length (chains w)
      then (case p3 (chains w ! c) of
              Pending \<Rightarrow> upd_chain c (\<lambda>ch. ch\<lparr>waiters := waiters ch @ [x]\<rparr>) w
            | Settled oc \<Rightarrow> enqueue [AwaitJob x c oc] w)
      else w)"

text \<open>
  Everything that can happen to the wrapper, and runs of such events.  The
  error of an exported function is dropped here; what the function did before
  it threw stays.  The queue holds the jobs of the wrapper's own promises
  only; the jobs of the surrounding program, which the host runs from the same
  queue, appear as events between two turns: a caller that queues \<open>abort\<close>
  as a microtask right after its call is an \<open>Abort\<close> event behind the jobs
  that were queued by then.
\<close>

datatype event =
    Call behaviour "jsval list"
  | Abort
  | OnAbort listener
  | Tick
  | SettleOp cid outcome
  | Await waiter cid

fun step :: "world \<Rightarrow> event \<Rightarrow> world" where
  "step w (Call beh args) = snd (makePromise beh args w)"
| "step w Abort = (case abort w of Inl e \<Rightarrow> w | Inr (t, w') \<Rightarrow> w')"
| "step w (OnAbort l) = (case onAbort l w of Inl e \<Rightarrow> w | Inr w' \<Rightarrow> w')"
| "step w Tick = tick w"
| "step w (SettleOp c oc) = settle_op c oc w"
| "step w (Await x c) = await x c w"

definition run :: "event list \<Rightarrow> world \<Rightarrow> world" where
  "run es w = foldl step w es"

fun is_call :: "event \<Rightarrow> bool" where
  "is_call (Call beh args) = True"
| "is_call e = False"

section \<open>The accessor decorators\<close>



















section \<open>Runs of the microtask loop, synchronous calls, invariants\<close>

text \<open>\<open>ticks n\<close>: the microtask loop takes \<open>n\<close> turns and nothing else happens.\<close>

fun ticks :: "nat \<Rightarrow> world \<Rightarrow> world" where
  "ticks 0 w = w"
| "ticks (Suc n) w = ticks n (tick w)"

text \<open>
  \<open>calls\<close>: the wrapped callable is invoked once per element, one invocation
  right after the other; the returned promises are collected.
\<close>

fun calls :: "(behaviour \<times> jsval list) list \<Rightarrow> world \<Rightarrow> cid list \<times> world" where
  "calls [] w = ([], w)"
| "calls ((beh, args) # rest) w =
     (let (p, w1) = makePromise beh args w;
          (ps, w2) = calls rest w1
      in (p # ps, w2))"

text \<open>
  The listeners that a target can register from inside its call, calls made
  from inside included, and the listeners that a run of events can register.
\<close>

fun regs_beh :: "behaviour \<Rightarrow> listener list"
  and regs_acts :: "action list \<Rightarrow> listener list" where
  "regs_beh (Behaviour acts e) = regs_acts acts"
| "regs_acts [] = []"
| "regs_acts (ReCall beh args # as) = regs_beh beh @ regs_acts as"
| "regs_acts (ReAbort # as) = regs_acts as"
| "regs_acts (ReOnAbort l # as) = l # regs_acts as"
| "regs_acts (Observe # as) = regs_acts as"

fun registered :: "event list \<Rightarrow> listener list" where
  "registered [] = []"
| "registered (OnAbort l # es) = l # registered es"
| "registered (Call beh args # es) = regs_beh beh @ registered es"
| "registered (e # es) = registered es"

text \<open>
  A target is calm when, from inside its call, it neither calls nor aborts
  the wrapper: it may read the wrapper's state and register listeners.  A run
  is calm when the target of every call in it is.  A target makes no inner
  call when no \<open>ReCall\<close> is among its actions.
\<close>

fun calm_action :: "action \<Rightarrow> bool" where
  "calm_action (ReCall beh args) = False"
| "calm_action ReAbort = False"
| "calm_action (ReOnAbort l) = True"
| "calm_action Observe = True"

fun calm :: "behaviour \<Rightarrow> bool" where
  "calm (Behaviour acts e) = list_all calm_action acts"

fun calm_event :: "event \<Rightarrow> bool" where
  "calm_event (Call beh args) = calm beh"
| "calm_event e = True"

definition calm_run :: "event list \<Rightarrow> bool" where
  "calm_run es = list_all calm_event es"

fun no_recall_action :: "action \<Rightarrow> bool" where
  "no_recall_action (ReCall beh args) = False"
| "no_recall_action a = True"

fun no_recall :: "behaviour \<Rightarrow> bool" where
  "no_recall (Behaviour acts e) = list_all no_recall_action acts"

text \<open>All the listeners of a list return when they are called.\<close>

definition all_return :: "listener list \<Rightarrow> bool" where
  "all_return ls = list_all (\<lambda>l. thrown l = None) ls"

text \<open>
  The two halves of a call of \<open>makePromise\<close> that finds no promise stored,
  before and after the synchronous part of the target: \<open>call_begin\<close> is the
  world in which the target starts to run, and \<open>call_end\<close> is what the
  rest of the call makes of the world \<open>w\<close> the target has left, given the
  error \<open>t\<close> that left the target's actions, if any.  \<open>fields_of\<close> is
  the fields of the function object, new ones if it has none.
\<close>

definition fields_of :: "world \<Rightarrow> PromiseObject" where
  "fields_of w = (case promiseObject w of None \<Rightarrow> new_promiseObject | Some x \<Rightarrow> x)"

definition call_begin :: "jsval list \<Rightarrow> world \<Rightarrow> world" where
  "call_begin args w =
     w\<lparr>promiseObject :=
         Some ((fields_of w)\<lparr>isPending := True, error := JUndefined, result := JUndefined,
                 resolve := Some (length (chains w)), reject := Some (length (chains w))\<rparr>),
       chains := chains w @ [new_chain], invoked := invoked w @ [args]\<rparr>"

definition call_end :: "jsval option \<Rightarrow> ending \<Rightarrow> cid \<Rightarrow> world \<Rightarrow> world" where
  "call_end t e c w =
     upd_po (\<lambda>x. x\<lparr>promise := Some c\<rparr>)
       (then_p0 c (case t of
                     Some err \<Rightarrow> settle_p0 c (Rejected err) w
                   | None \<Rightarrow> target_returns e c w))"

text \<open>
  What the end of the executor and the chaining of the reactions leave of the
  chain that \<open>new Promise\<close> has made, and what they queue, for a target that
  did not settle \<open>p0\<close> from inside its call.
\<close>

definition final_chain :: "ending \<Rightarrow> chain" where
  "final_chain e =
     (case e of
        Throws err \<Rightarrow> new_chain\<lparr>p0 := Settled (Rejected err)\<rparr>
      | ReturnsPending \<Rightarrow> new_chain\<lparr>tp := Some Pending, p0_then := True\<rparr>
      | ReturnsSettled oc \<Rightarrow> new_chain\<lparr>tp := Some (Settled oc), p0_then := True\<rparr>)"

definition first_jobs :: "ending \<Rightarrow> cid \<Rightarrow> job list" where
  "first_jobs e c =
     (case e of
        Throws err \<Rightarrow> [ThenJob c (Rejected err)]
      | ReturnsPending \<Rightarrow> []
      | ReturnsSettled oc \<Rightarrow> [ResolveJob c oc])"

text \<open>
  The jobs whose handler is one of the three closures of \<open>makePromise\<close>, and
  the jobs that settle the promise of \<open>finally\<close> of a given chain.
\<close>

fun is_wjob :: "job \<Rightarrow> bool" where
  "is_wjob (ThenJob c oc) = True"
| "is_wjob (CatchJob c oc) = True"
| "is_wjob (FinallyJob c oc) = True"
| "is_wjob j = False"

fun is_tail_job :: "cid \<Rightarrow> job \<Rightarrow> bool" where
  "is_tail_job c (ThunkJob c' oc) = (c' = c)"
| "is_tail_job c (ThenableJob c') = (c' = c)"
| "is_tail_job c (SettleJob c' oc) = (c' = c)"
| "is_tail_job c j = False"

fun is_finally :: "cid \<Rightarrow> job \<Rightarrow> bool" where
  "is_finally c (FinallyJob c' oc) = (c' = c)"
| "is_finally c j = False"

fun job_cid :: "job \<Rightarrow> cid" where
  "job_cid (ResolveJob c oc) = c"
| "job_cid (ThenJob c oc) = c"
| "job_cid (CatchJob c oc) = c"
| "job_cid (FinallyJob c oc) = c"
| "job_cid (ThunkJob c oc) = c"
| "job_cid (ThenableJob c) = c"
| "job_cid (SettleJob c oc) = c"
| "job_cid (AwaitJob x c oc) = c"

text \<open>
  What the fields \<open>result\<close> and \<open>error\<close> hold while a job of the chain in
  flight is queued: nothing before the \<open>then\<close> handler has run, the value
  after it has run on a fulfilment, the reason after the \<open>catch\<close> handler has
  run on a rejection.
\<close>

fun stage_ok :: "job \<Rightarrow> cid \<Rightarrow> PromiseObject \<Rightarrow> bool" where
  "stage_ok (ThenJob c' oc) c po =
     (c' = c \<and> result po = JUndefined \<and> error po = JUndefined)"
| "stage_ok (CatchJob c' (Fulfilled v)) c po =
     (c' = c \<and> result po = v \<and> error po = JUndefined)"
| "stage_ok (CatchJob c' (Rejected e)) c po =
     (c' = c \<and> result po = JUndefined \<and> error po = JUndefined)"
| "stage_ok (FinallyJob c' (Fulfilled v)) c po =
     (c' = c \<and> result po = v \<and> error po = JUndefined)"
| "stage_ok (FinallyJob c' (Rejected e)) c po =
     (c' = c \<and> result po = JUndefined \<and> error po = e)"
| "stage_ok j c po = False"

text \<open>
  The invariant of the wrapper's own state.  The pending flag is set exactly
  when a promise is stored, and the resolving functions are those of the
  stored promise's chain.  Every \<open>p0\<close> but that of the stored promise is
  settled.  With no promise stored no closure of \<open>makePromise\<close> is queued.
  With the promise of chain \<open>c\<close> stored, either \<open>p0\<close> of \<open>c\<close> is
  pending with its reaction registered, no closure is queued and both fields
  are empty, or exactly one closure is queued and the fields are as its stage
  says.
\<close>

fun wjobs_ok :: "job list \<Rightarrow> cid \<Rightarrow> PromiseObject \<Rightarrow> bool" where
  "wjobs_ok [j] c po = stage_ok j c po"
| "wjobs_ok js c po = False"

definition inv_po :: "PromiseObject \<Rightarrow> chain list \<Rightarrow> job list \<Rightarrow> bool" where
  "inv_po po chs wj =
     ((result po = JUndefined \<or> error po = JUndefined) \<and>
      isPending po = (promise po \<noteq> None) \<and>
      resolve po = promise po \<and> reject po = promise po \<and>
      (\<forall>c' < length chs. Some c' \<noteq> promise po \<longrightarrow> p0 (chs ! c') \<noteq> Pending) \<and>
      (case promise po of
         None \<Rightarrow> wj = []
       | Some c \<Rightarrow>
           c < length chs \<and>
           (if p0 (chs ! c) = Pending
            then p0_then (chs ! c) \<and> wj = [] \<and>
                 result po = JUndefined \<and> error po = JUndefined
            else wjobs_ok wj c po)))"

definition inv_core :: "world \<Rightarrow> bool" where
  "inv_core w =
     (case promiseObject w of
        None \<Rightarrow> chains w = [] \<and> queue w = []
      | Some po \<Rightarrow> inv_po po (chains w) (filter is_wjob (queue w)))"

text \<open>Every queued job names an existing chain.\<close>

definition inv_ids :: "world \<Rightarrow> bool" where
  "inv_ids w = (\<forall>j \<in> set (queue w). job_cid j < length (chains w))"

text \<open>
  While the promise of chain \<open>c\<close> is stored, the reaction of \<open>finally\<close> has
  not run for \<open>c\<close>: the returned promise is pending and nothing is queued
  that would settle it.
\<close>

definition inv_cur :: "world \<Rightarrow> bool" where
  "inv_cur w =
     (case promiseObject w of
        None \<Rightarrow> True
      | Some po \<Rightarrow>
          (case promise po of
             None \<Rightarrow> True
           | Some c \<Rightarrow>
               filter (is_tail_job c) (queue w) = [] \<and>
               pf (chains w ! c) = Pending \<and> \<not> pf_then (chains w ! c) \<and>
               p3 (chains w ! c) = Pending))"

text \<open>
  Whatever was handed to a waiter of a promise, and whatever is queued to be
  handed to one, is the settlement of that promise.
\<close>

definition inv_await :: "world \<Rightarrow> bool" where
  "inv_await w =
     ((\<forall>x c oc. AwaitJob x c oc \<in> set (queue w) \<longrightarrow>
          c < length (chains w) \<and> p3 (chains w ! c) = Settled oc) \<and>
      (\<forall>x c oc. (x, c, oc) \<in> set (delivered w) \<longrightarrow>
          c < length (chains w) \<and> p3 (chains w ! c) = Settled oc))"

text \<open>A world is well formed when all four invariants hold.\<close>

definition wf_world :: "world \<Rightarrow> bool" where
  "wf_world w = (inv_core w \<and> inv_ids w \<and> inv_cur w \<and> inv_await w)"

text \<open>
  What the three closures of \<open>makePromise\<close> do to the fields, by the
  settlement they react to.
\<close>

definition po_then :: "outcome \<Rightarrow> PromiseObject \<Rightarrow> PromiseObject" where
  "po_then oc po = (case oc of Fulfilled v \<Rightarrow> po\<lparr>result := v\<rparr> | Rejected e \<Rightarrow> po)"

definition po_catch :: "outcome \<Rightarrow> PromiseObject \<Rightarrow> PromiseObject" where
  "po_catch oc po = (case oc of Fulfilled v \<Rightarrow> po | Rejected e \<Rightarrow> po\<lparr>error := e\<rparr>)"

definition po_finally :: "PromiseObject \<Rightarrow> PromiseObject" where
  "po_finally po = po\<lparr>promise := None, resolve := None, reject := None,
                        abortListeners := [], isPending := False\<rparr>"

text \<open>The listeners currently registered (none without the fields).\<close>

definition listeners_of :: "world \<Rightarrow> listener list" where
  "listeners_of w = (case promiseObject w of None \<Rightarrow> [] | Some po \<Rightarrow> abortListeners po)"

text \<open>
  After the callback of \<open>finally\<close> has run for chain \<open>c\<close>: the fields
  are \<open>po\<close>, the promise \<open>pf\<close> of the chain is in state \<open>s\<close>, the
  returned promise is still pending, and the queued jobs that will settle it
  are \<open>js\<close>, in this order.
\<close>

definition tail_phase :: "cid \<Rightarrow> PromiseObject \<Rightarrow> pstate \<Rightarrow> job list \<Rightarrow> world \<Rightarrow> bool" where
  "tail_phase c po s js w =
     (wf_world w \<and> promiseObject w = Some po \<and> promise po = None \<and>
      c < length (chains w) \<and> pf (chains w ! c) = s \<and> \<not> pf_then (chains w ! c) \<and>
      p3 (chains w ! c) = Pending \<and> filter (is_tail_job c) (queue w) = js)"


text \<open>
  One world extends another: nothing more was handed to waiters, the chains
  that were there keep the state of their returned promise, and no job that
  hands a settlement to a waiter was queued.
\<close>

definition extends :: "world \<Rightarrow> world \<Rightarrow> bool" where
  "extends w w' =
     (delivered w' = delivered w \<and> length (chains w) \<le> length (chains w') \<and>
      (\<forall>c < length (chains w). p3 (chains w' ! c) = p3 (chains w ! c)) \<and>
      (\<forall>x c oc. AwaitJob x c oc \<in> set (queue w') \<longrightarrow> AwaitJob x c oc \<in> set (queue w)))"

text \<open>
  One world follows another by calls of listeners: the listeners called in
  between were registered before or are among \<open>ls\<close>, and so are the
  listeners that are registered at the end.
\<close>

definition fires_within :: "listener list \<Rightarrow> world \<Rightarrow> world \<Rightarrow> bool" where
  "fires_within ls w w' =
     ((\<exists>fs. fired w' = fired w @ fs \<and> set fs \<subseteq> set (listeners_of w) \<union> set ls) \<and>
      set (listeners_of w') \<subseteq> set (listeners_of w) \<union> set ls)"

section \<open>Basic facts about the primitives\<close>

declare makePromise.simps [simp del]

lemma enqueue_fields [simp]:
  "promiseObject (enqueue js w) = promiseObject w"
  "chains (enqueue js w) = chains w"
  "queue (enqueue js w) = queue w @ js"
  "invoked (enqueue js w) = invoked w"
  "fired (enqueue js w) = fired w"
  "delivered (enqueue js w) = delivered w"
  "observed (enqueue js w) = observed w"
  "received (enqueue js w) = received w"
  by (simp_all add: enqueue_def)

lemma upd_chain_fields [simp]:
  "promiseObject (upd_chain c f w) = promiseObject w"
  "queue (upd_chain c f w) = queue w"
  "invoked (upd_chain c f w) = invoked w"
  "fired (upd_chain c f w) = fired w"
  "delivered (upd_chain c f w) = delivered w"
  "observed (upd_chain c f w) = observed w"
  "received (upd_chain c f w) = received w"
  "length (chains (upd_chain c f w)) = length (chains w)"
  by (simp_all add: upd_chain_def)

lemma upd_chain_nth:
  "c' < length (chains w) \<Longrightarrow>
   chains (upd_chain c f w) ! c' = (if c' = c then f (chains w ! c) else chains w ! c')"
  by (simp add: upd_chain_def nth_list_update)

lemma upd_po_fields [simp]:
  "promiseObject (upd_po f w) = map_option f (promiseObject w)"
  "chains (upd_po f w) = chains w"
  "queue (upd_po f w) = queue w"
  "invoked (upd_po f w) = invoked w"
  "fired (upd_po f w) = fired w"
  "delivered (upd_po f w) = delivered w"
  "observed (upd_po f w) = observed w"
  "received (upd_po f w) = received w"
  by (simp_all add: upd_po_def)

lemma settle_p0_fields [simp]:
  "promiseObject (settle_p0 c oc w) = promiseObject w"
  "invoked (settle_p0 c oc w) = invoked w"
  "fired (settle_p0 c oc w) = fired w"
  "delivered (settle_p0 c oc w) = delivered w"
  "observed (settle_p0 c oc w) = observed w"
  "received (settle_p0 c oc w) = received w"
  "length (chains (settle_p0 c oc w)) = length (chains w)"
  by (simp_all add: settle_p0_def Let_def)

lemma then_p0_fields [simp]:
  "promiseObject (then_p0 c w) = promiseObject w"
  "invoked (then_p0 c w) = invoked w"
  "fired (then_p0 c w) = fired w"
  "delivered (then_p0 c w) = delivered w"
  "observed (then_p0 c w) = observed w"
  "received (then_p0 c w) = received w"
  "length (chains (then_p0 c w)) = length (chains w)"
  by (simp_all add: then_p0_def split: pstate.splits)

lemma target_returns_fields [simp]:
  "promiseObject (target_returns e c w) = promiseObject w"
  "invoked (target_returns e c w) = invoked w"
  "fired (target_returns e c w) = fired w"
  "delivered (target_returns e c w) = delivered w"
  "observed (target_returns e c w) = observed w"
  "received (target_returns e c w) = received w"
  "length (chains (target_returns e c w)) = length (chains w)"
  by (simp_all add: target_returns_def split: ending.splits)

lemma call_listeners_all_return:
  "all_return ls \<Longrightarrow> call_listeners ls = (ls, None)"
  by (induction ls) (simp_all add: all_return_def)

lemma call_listeners_subset:
  "call_listeners ls = (cs, r) \<Longrightarrow> set cs \<subseteq> set ls"
  by (induction ls arbitrary: cs r) (auto split: option.splits prod.splits)

text \<open>The three ways \<open>abortPromise\<close> can go.\<close>

lemma abortPromise_idle:
  "\<not> isPending po \<Longrightarrow> abortPromise po w = (None, w)"
  by (simp add: abortPromise_def)

lemma abortPromise_throws:
  "isPending po \<Longrightarrow> call_listeners (abortListeners po) = (cs, Some e) \<Longrightarrow>
   abortPromise po w = (Some e, w\<lparr>fired := fired w @ cs\<rparr>)"
  by (simp add: abortPromise_def)

lemma abortPromise_returns:
  "isPending po \<Longrightarrow> call_listeners (abortListeners po) = (cs, None) \<Longrightarrow>
   abortPromise po w =
     (None, case reject po of
              None \<Rightarrow> w\<lparr>fired := fired w @ cs,
                         promiseObject := Some (po\<lparr>abortListeners := []\<rparr>)\<rparr>
            | Some c \<Rightarrow> settle_p0 c (Rejected new_AbortError)
                         (w\<lparr>fired := fired w @ cs,
                            promiseObject := Some (po\<lparr>abortListeners := []\<rparr>)\<rparr>))"
  by (simp add: abortPromise_def Let_def)

lemma abortPromise_cases:
  obtains (idle) "\<not> isPending po" "abortPromise po w = (None, w)"
  | (throws) cs e where "isPending po" "call_listeners (abortListeners po) = (cs, Some e)"
      "abortPromise po w = (Some e, w\<lparr>fired := fired w @ cs\<rparr>)"
  | (returns) cs where "isPending po" "call_listeners (abortListeners po) = (cs, None)"
      "abortPromise po w =
         (None, case reject po of
              None \<Rightarrow> w\<lparr>fired := fired w @ cs,
                         promiseObject := Some (po\<lparr>abortListeners := []\<rparr>)\<rparr>
            | Some c \<Rightarrow> settle_p0 c (Rejected new_AbortError)
                         (w\<lparr>fired := fired w @ cs,
                            promiseObject := Some (po\<lparr>abortListeners := []\<rparr>)\<rparr>))"
proof (cases "isPending po")
  case False
  then show ?thesis using idle abortPromise_idle by blast
next
  case True
  obtain cs r where c: "call_listeners (abortListeners po) = (cs, r)" by fastforce
  show ?thesis
  proof (cases r)
    case None
    with True c show ?thesis using returns abortPromise_returns by blast
  next
    case (Some e)
    with True c show ?thesis using throws abortPromise_throws by blast
  qed
qed

lemma abortPromise_po:
  "promiseObject w = Some po \<Longrightarrow>
   \<exists>po'. promiseObject (snd (abortPromise po w)) = Some po' \<and>
         isPending po' = isPending po \<and> promise po' = promise po \<and>
         resolve po' = resolve po \<and> reject po' = reject po \<and>
         result po' = result po \<and> error po' = error po \<and>
         (abortListeners po' = abortListeners po \<or> abortListeners po' = [])"
  by (cases po w rule: abortPromise_cases) (auto split: option.splits)

lemma abortPromise_frame [simp]:
  "invoked (snd (abortPromise po w)) = invoked w"
  "delivered (snd (abortPromise po w)) = delivered w"
  "observed (snd (abortPromise po w)) = observed w"
  "received (snd (abortPromise po w)) = received w"
  "length (chains (snd (abortPromise po w))) = length (chains w)"
  by (cases po w rule: abortPromise_cases; auto split: option.splits)+

lemma world_po_id [simp]: "promiseObject w = Some po \<Longrightarrow> w\<lparr>promiseObject := Some po\<rparr> = w"
  by simp

lemma run_job_po_Some:
  "promiseObject w = Some po \<Longrightarrow> \<exists>po'. promiseObject (run_job j w) = Some po'"
  by (induction j w rule: run_job.induct) (auto simp: Let_def split: pstate.splits)

lemma run_job_po_None:
  "promiseObject w = None \<Longrightarrow> promiseObject (run_job j w) = None"
  by (induction j w rule: run_job.induct) (auto simp: Let_def split: pstate.splits)

lemma run_Nil [simp]: "run [] w = w"
  by (simp add: run_def)

lemma run_Cons: "run (e # es) w = run es (step w e)"
  by (simp add: run_def)

lemma run_snoc: "run (es @ [e]) w = step (run es w) e"
  by (simp add: run_def)

section \<open>What every call leaves, whatever the target does\<close>

lemma makePromise_stored:
  "promiseObject w = Some po \<Longrightarrow> promise po = Some p \<Longrightarrow> makePromise beh args w = (p, w)"
  by (cases beh) (simp add: makePromise.simps)

lemma makePromise_fresh:
  "promise (fields_of w) = None \<Longrightarrow>
   makePromise (Behaviour acts e) args w =
     (length (chains w),
      call_end (fst (run_actions acts (call_begin args w))) e (length (chains w))
        (snd (run_actions acts (call_begin args w))))"
  by (simp add: makePromise.simps Let_def fields_of_def call_begin_def call_end_def
      split: prod.splits option.splits)

lemma call_begin_fields [simp]:
  "promiseObject (call_begin args w) =
     Some ((fields_of w)\<lparr>isPending := True, error := JUndefined, result := JUndefined,
             resolve := Some (length (chains w)), reject := Some (length (chains w))\<rparr>)"
  "chains (call_begin args w) = chains w @ [new_chain]"
  "queue (call_begin args w) = queue w"
  "invoked (call_begin args w) = invoked w @ [args]"
  "fired (call_begin args w) = fired w"
  "delivered (call_begin args w) = delivered w"
  "observed (call_begin args w) = observed w"
  "received (call_begin args w) = received w"
  by (simp_all add: call_begin_def)

lemma call_end_fields [simp]:
  "promiseObject (call_end t e c w) = map_option (\<lambda>x. x\<lparr>promise := Some c\<rparr>) (promiseObject w)"
  "invoked (call_end t e c w) = invoked w"
  "fired (call_end t e c w) = fired w"
  "delivered (call_end t e c w) = delivered w"
  "observed (call_end t e c w) = observed w"
  "received (call_end t e c w) = received w"
  "length (chains (call_end t e c w)) = length (chains w)"
  by (cases t; simp add: call_end_def)+

lemma fields_of_Some [simp]: "promiseObject w = Some po \<Longrightarrow> fields_of w = po"
  by (simp add: fields_of_def)

lemma fields_of_None [simp]: "promiseObject w = None \<Longrightarrow> fields_of w = new_promiseObject"
  by (simp add: fields_of_def)

text \<open>
  Every call leaves a promise stored, and nothing a target does from inside
  its call clears the pending flag.
\<close>

lemma call_keeps_pending:
  "\<exists>po'. promiseObject (snd (makePromise beh args w)) = Some po' \<and> promise po' \<noteq> None \<and>
         (promise (fields_of w) = None \<or> isPending (fields_of w) \<longrightarrow> isPending po')"
  and actions_keep_pending:
  "promiseObject w = Some po \<Longrightarrow>
   \<exists>po'. promiseObject (snd (run_actions acts w)) = Some po' \<and> (isPending po \<longrightarrow> isPending po')"
proof (induction beh args w and acts w arbitrary: and po rule: makePromise_run_actions.induct)
  case (1 acts e args w0)
  show ?case
  proof (cases "promise (fields_of w0)")
    case (Some p)
    then show ?thesis
      by (cases "promiseObject w0") (simp_all add: makePromise.simps fields_of_def)
  next
    case None
    note ih = "1.IH"[OF refl refl None[unfolded fields_of_def] refl refl refl]
    have "\<exists>po'. promiseObject (snd (run_actions acts (call_begin args w0))) = Some po' \<and>
               isPending po'"
      using ih[of "(fields_of w0)\<lparr>isPending := True, error := JUndefined,
                     result := JUndefined, resolve := Some (length (chains w0)),
                     reject := Some (length (chains w0))\<rparr>"]
      by (simp add: fields_of_def call_begin_def)
    with None show ?thesis by (auto simp: makePromise_fresh)
  qed
next
  case (2 w)
  then show ?case by simp
next
  case (3 beh args as w)
  obtain p w' where m: "makePromise beh args w = (p, w')" by fastforce
  from "3.IH"(1) "3.prems" m obtain po1 where
    po1: "promiseObject w' = Some po1" "isPending po \<longrightarrow> isPending po1"
    by auto
  from "3.IH"(2)[of p w' po1] m po1 show ?case by auto
next
  case (4 as w)
  obtain t w' where a: "abortPromise po w = (t, w')" by fastforce
  from abortPromise_po[OF "4.prems", of ] a obtain po1 where
    po1: "promiseObject w' = Some po1" "isPending po1 = isPending po"
    by auto
  show ?case
  proof (cases t)
    case None
    with "4.IH"[of po t w' po1] "4.prems" a po1 show ?thesis by auto
  next
    case (Some err)
    with "4.prems" a po1 show ?thesis by auto
  qed
next
  case (5 l as w)
  define w' where "w' = w\<lparr>promiseObject := Some (po\<lparr>abortListeners := abortListeners po @ [l]\<rparr>)\<rparr>"
  have o: "onAbort l w = Inr w'" using "5.prems" by (simp add: onAbort_def w'_def)
  from "5.IH"[OF o, of "po\<lparr>abortListeners := abortListeners po @ [l]\<rparr>"] o
  show ?case by (simp add: w'_def)
next
  case (6 as w)
  then show ?case by auto
qed

lemma makePromise_cases:
  obtains (stored) po p where "promiseObject w = Some po" "promise po = Some p"
      "makePromise (Behaviour acts e) args w = (p, w)"
  | (fresh) "promise (fields_of w) = None"
      "makePromise (Behaviour acts e) args w =
         (length (chains w),
          call_end (fst (run_actions acts (call_begin args w))) e (length (chains w))
            (snd (run_actions acts (call_begin args w))))"
proof (cases "promise (fields_of w)")
  case None
  then show ?thesis using fresh makePromise_fresh by blast
next
  case (Some p)
  then obtain po where "promiseObject w = Some po" "promise po = Some p"
    by (cases "promiseObject w") (simp_all add: new_promiseObject_def)
  then show ?thesis using stored makePromise_stored by blast
qed

subsection \<open>Returned promises are not touched by a call\<close>

lemma extends_refl [simp]: "extends w w"
  by (simp add: extends_def)

lemma extends_trans: "extends w w' \<Longrightarrow> extends w' w'' \<Longrightarrow> extends w w''"
  unfolding extends_def by (metis (no_types, lifting) order_less_le_trans order_trans)

lemma settle_p0_cells:
  "c' < length (chains w) \<Longrightarrow>
   pf (chains (settle_p0 c oc w) ! c') = pf (chains w ! c') \<and>
   pf_then (chains (settle_p0 c oc w) ! c') = pf_then (chains w ! c') \<and>
   p3 (chains (settle_p0 c oc w) ! c') = p3 (chains w ! c') \<and>
   waiters (chains (settle_p0 c oc w) ! c') = waiters (chains w ! c')"
  by (auto simp: settle_p0_def upd_chain_nth Let_def)

lemma settle_p0_queue:
  "queue (settle_p0 c oc w) =
     (if c < length (chains w) \<and> p0 (chains w ! c) = Pending \<and> p0_then (chains w ! c)
      then queue w @ [ThenJob c oc] else queue w)"
  by (simp add: settle_p0_def Let_def)

lemma settle_p0_chains:
  "c' < length (chains w) \<Longrightarrow>
   p0 (chains (settle_p0 c oc w) ! c') =
     (if c' = c \<and> p0 (chains w ! c) = Pending then Settled oc else p0 (chains w ! c'))"
  by (auto simp: settle_p0_def upd_chain_nth Let_def)

lemma extends_settle_p0: "extends w (settle_p0 c oc w)"
  by (auto simp: extends_def settle_p0_cells settle_p0_queue)

lemma extends_then_p0: "extends w (then_p0 c w)"
  by (auto simp: extends_def then_p0_def upd_chain_nth split: pstate.splits)

lemma extends_target_returns: "extends w (target_returns e c w)"
proof (cases e)
  case (Throws err)
  then show ?thesis by (simp add: target_returns_def extends_settle_p0)
next
  case ReturnsPending
  then show ?thesis by (auto simp: target_returns_def extends_def upd_chain_nth)
next
  case (ReturnsSettled oc)
  then show ?thesis by (auto simp: target_returns_def extends_def upd_chain_nth)
qed

lemma extends_upd_po: "extends w (upd_po f w)"
  by (simp add: extends_def)

lemma extends_call_begin: "extends w (call_begin args w)"
  by (simp add: extends_def nth_append)

lemma extends_call_end: "extends w (call_end t e c w)"
proof -
  have "extends w (case t of Some err \<Rightarrow> settle_p0 c (Rejected err) w
                   | None \<Rightarrow> target_returns e c w)"
    by (cases t) (simp_all add: extends_settle_p0 extends_target_returns)
  then show ?thesis
    unfolding call_end_def
    by (blast intro: extends_trans extends_then_p0 extends_upd_po)
qed

lemma extends_abortPromise: "extends w (snd (abortPromise po w))"
proof (cases po w rule: abortPromise_cases)
  case idle
  then show ?thesis by simp
next
  case (throws cs e)
  then show ?thesis by (simp add: extends_def)
next
  case (returns cs)
  let ?w = "w\<lparr>fired := fired w @ cs, promiseObject := Some (po\<lparr>abortListeners := []\<rparr>)\<rparr>"
  have "extends w ?w" by (simp add: extends_def)
  moreover have "\<And>c. extends ?w (settle_p0 c (Rejected new_AbortError) ?w)"
    by (rule extends_settle_p0)
  ultimately show ?thesis using returns(3)
    by (cases "reject po") (auto intro: extends_trans)
qed

lemma extends_call:
  "extends w (snd (makePromise beh args w))"
  and extends_actions:
  "extends w (snd (run_actions acts w))"
proof (induction beh args w and acts w rule: makePromise_run_actions.induct)
  case (1 acts e args w0)
  show ?case
  proof (cases rule: makePromise_cases[where w = w0 and acts = acts and e = e and args = args])
    case (stored po p)
    then show ?thesis by simp
  next
    case fresh
    note ih = "1.IH"[OF refl refl fresh(1)[unfolded fields_of_def] refl refl refl]
    from ih have "extends (call_begin args w0) (snd (run_actions acts (call_begin args w0)))"
      by (simp add: fields_of_def call_begin_def)
    then have "extends w0 (call_end (fst (run_actions acts (call_begin args w0))) e
                 (length (chains w0)) (snd (run_actions acts (call_begin args w0))))"
      using extends_trans[OF extends_call_begin] extends_trans[OF _ extends_call_end]
      by blast
    with fresh(2) show ?thesis by simp
  qed
next
  case (2 w)
  then show ?case by simp
next
  case (3 beh args as w)
  obtain p w' where m: "makePromise beh args w = (p, w')" by fastforce
  have "extends w' (w'\<lparr>received := received w' @ [p]\<rparr>)" by (simp add: extends_def)
  with "3.IH"(1) "3.IH"(2)[of p w'] m show ?case
    by (auto intro: extends_trans)
next
  case (4 as w)
  show ?case
  proof (cases "promiseObject w")
    case None
    then show ?thesis by simp
  next
    case (Some po)
    obtain t w' where a: "abortPromise po w = (t, w')" by fastforce
    with extends_abortPromise[of w po] have e: "extends w w'" by simp
    show ?thesis
    proof (cases t)
      case None
      with "4.IH"[OF Some, of t w'] Some a e show ?thesis by (auto intro: extends_trans)
    next
      case (Some err)
      with \<open>promiseObject w = Some po\<close> a e show ?thesis by simp
    qed
  qed
next
  case (5 l as w)
  show ?case
  proof (cases "onAbort l w")
    case (Inl err)
    then show ?thesis by simp
  next
    case (Inr w')
    then have "extends w w'" by (auto simp: onAbort_def extends_def split: option.splits)
    with "5.IH"[OF Inr] Inr show ?thesis by (auto intro: extends_trans)
  qed
next
  case (6 as w)
  have "extends w (w\<lparr>observed := observed w @
              [(case promiseObject w of None \<Rightarrow> (False, None)
                | Some po \<Rightarrow> (isPending po, promise po))]\<rparr>)"
    by (simp add: extends_def)
  with "6.IH" show ?case by (auto intro: extends_trans)
qed

lemma inv_await_extends:
  assumes "inv_await w" and "extends w w'"
  shows "inv_await w'"
  using assms unfolding inv_await_def extends_def
  by (metis order_less_le_trans)

subsection \<open>Which listeners a call can call\<close>

lemma fires_within_same:
  "fired w' = fired w \<Longrightarrow> set (listeners_of w') \<subseteq> set (listeners_of w) \<union> set ls \<Longrightarrow>
   fires_within ls w w'"
  by (simp add: fires_within_def)

lemma fires_within_refl [simp]: "fires_within ls w w"
  by (simp add: fires_within_def)

lemma fires_within_trans:
  assumes "fires_within ls1 w w'" and "fires_within ls2 w' w''"
  shows "fires_within (ls1 @ ls2) w w''"
proof -
  from assms(1) obtain fs1 where 1: "fired w' = fired w @ fs1"
    "set fs1 \<subseteq> set (listeners_of w) \<union> set ls1"
    "set (listeners_of w') \<subseteq> set (listeners_of w) \<union> set ls1"
    unfolding fires_within_def by blast
  from assms(2) obtain fs2 where 2: "fired w'' = fired w' @ fs2"
    "set fs2 \<subseteq> set (listeners_of w') \<union> set ls2"
    "set (listeners_of w'') \<subseteq> set (listeners_of w') \<union> set ls2"
    unfolding fires_within_def by blast
  have "fired w'' = fired w @ (fs1 @ fs2)" using 1(1) 2(1) by simp
  moreover have "set (fs1 @ fs2) \<subseteq> set (listeners_of w) \<union> set (ls1 @ ls2)"
    using 1(2,3) 2(2) by auto
  moreover have "set (listeners_of w'') \<subseteq> set (listeners_of w) \<union> set (ls1 @ ls2)"
    using 1(3) 2(3) by auto
  ultimately show ?thesis unfolding fires_within_def by blast
qed

lemma fires_within_mono: "fires_within [] w w' \<Longrightarrow> fires_within ls w w'"
  unfolding fires_within_def by auto

lemma fires_within_trans_l:
  "fires_within [] w w' \<Longrightarrow> fires_within ls w' w'' \<Longrightarrow> fires_within ls w w''"
  using fires_within_trans[of "[]" w w' ls w''] by simp

lemma fires_within_trans_r:
  "fires_within ls w w' \<Longrightarrow> fires_within [] w' w'' \<Longrightarrow> fires_within ls w w''"
  using fires_within_trans[of ls w w' "[]" w''] by simp

lemma listeners_of_call_begin [simp]: "listeners_of (call_begin args w) = listeners_of w"
  by (cases "promiseObject w") (simp_all add: listeners_of_def new_promiseObject_def)

lemma listeners_of_call_end [simp]: "listeners_of (call_end t e c w) = listeners_of w"
  by (cases "promiseObject w") (simp_all add: listeners_of_def)

lemma fires_abortPromise:
  assumes "promiseObject w = Some po"
  shows "fires_within [] w (snd (abortPromise po w))"
proof (cases po w rule: abortPromise_cases)
  case idle
  then show ?thesis by simp
next
  case (throws cs e)
  with call_listeners_subset[OF throws(2)] assms show ?thesis
    by (simp add: fires_within_def listeners_of_def)
next
  case (returns cs)
  with call_listeners_subset[OF returns(2)] assms show ?thesis
    by (cases "reject po") (simp_all add: fires_within_def listeners_of_def)
qed

lemma fires_onAbort:
  "onAbort l w = Inr w' \<Longrightarrow> fires_within [l] w w'"
  by (auto simp: onAbort_def fires_within_def listeners_of_def split: option.splits)

lemma fires_call:
  "fires_within (regs_beh beh) w (snd (makePromise beh args w))"
  and fires_actions:
  "fires_within (regs_acts acts) w (snd (run_actions acts w))"
proof (induction beh args w and acts w rule: makePromise_run_actions.induct)
  case (1 acts e args w0)
  show ?case
  proof (cases rule: makePromise_cases[where w = w0 and acts = acts and e = e and args = args])
    case (stored po p)
    then show ?thesis by simp
  next
    case fresh
    note ih = "1.IH"[OF refl refl fresh(1)[unfolded fields_of_def] refl refl refl]
    let ?w1 = "call_begin args w0"
    let ?w2 = "snd (run_actions acts ?w1)"
    from ih have "fires_within (regs_acts acts) ?w1 ?w2"
      by (simp add: fields_of_def call_begin_def)
    moreover have "fires_within [] w0 ?w1" by (simp add: fires_within_same)
    moreover have "fires_within [] ?w2
        (call_end (fst (run_actions acts ?w1)) e (length (chains w0)) ?w2)"
      by (simp add: fires_within_same)
    ultimately have "fires_within (regs_acts acts) w0
        (call_end (fst (run_actions acts ?w1)) e (length (chains w0)) ?w2)"
      using fires_within_trans_l fires_within_trans_r by blast
    with fresh(2) show ?thesis by simp
  qed
next
  case (2 w)
  then show ?case by simp
next
  case (3 beh args as w)
  obtain p w' where m: "makePromise beh args w = (p, w')" by fastforce
  have "fires_within [] w' (w'\<lparr>received := received w' @ [p]\<rparr>)"
    by (simp add: fires_within_same listeners_of_def)
  then have "fires_within (regs_beh beh) w (w'\<lparr>received := received w' @ [p]\<rparr>)"
    using "3.IH"(1) m fires_within_trans_r[of "regs_beh beh" w w'] by simp
  from fires_within_trans[OF this "3.IH"(2)[of p w']] m show ?case by simp
next
  case (4 as w)
  show ?case
  proof (cases "promiseObject w")
    case None
    then show ?thesis by simp
  next
    case (Some po)
    obtain t w' where a: "abortPromise po w = (t, w')" by fastforce
    with fires_abortPromise[OF Some] have e: "fires_within [] w w'" by simp
    show ?thesis
    proof (cases t)
      case None
      with "4.IH"[OF Some, of t w'] Some a e show ?thesis
        using fires_within_trans_l by fastforce
    next
      case (Some err)
      with \<open>promiseObject w = Some po\<close> a fires_within_mono[OF e, of "regs_acts as"]
      show ?thesis by simp
    qed
  qed
next
  case (5 l as w)
  show ?case
  proof (cases "onAbort l w")
    case (Inl err)
    then show ?thesis by simp
  next
    case (Inr w')
    from fires_within_trans[OF fires_onAbort[OF Inr] "5.IH"[OF Inr]] Inr
    show ?thesis by simp
  qed
next
  case (6 as w)
  let ?w = "w\<lparr>observed := observed w @
              [(case promiseObject w of None \<Rightarrow> (False, None)
                | Some po \<Rightarrow> (isPending po, promise po))]\<rparr>"
  have "fires_within [] w ?w"
    by (simp add: fires_within_same listeners_of_def)
  from fires_within_trans_l[OF this "6.IH"] show ?case by simp
qed

subsection \<open>Targets that make no inner call\<close>

lemma no_recall_invoked:
  "list_all no_recall_action acts \<Longrightarrow> invoked (snd (run_actions acts w)) = invoked w"
proof (induction acts arbitrary: w)
  case Nil
  then show ?case by simp
next
  case (Cons a as)
  show ?case
  proof (cases a)
    case (ReCall beh args)
    with Cons.prems show ?thesis by simp
  next
    case ReAbort
    show ?thesis
    proof (cases "promiseObject w")
      case None
      with ReAbort show ?thesis by simp
    next
      case (Some po)
      obtain t w' where a: "abortPromise po w = (t, w')" by fastforce
      then have "invoked w' = invoked w" using abortPromise_frame(1)[of po w] by simp
      with Cons.IH[of w'] Cons.prems ReAbort Some a show ?thesis
        by (cases t) simp_all
    qed
  next
    case (ReOnAbort l)
    with Cons.IH Cons.prems show ?thesis
      by (cases "promiseObject w") (simp_all add: onAbort_def)
  next
    case Observe
    with Cons.IH Cons.prems show ?thesis by simp
  qed
qed

lemma makePromise_promise:
  assumes "promise (fields_of w) = None"
  shows "\<exists>po'. promiseObject (snd (makePromise (Behaviour acts e) args w)) = Some po' \<and>
               promise po' = Some (length (chains w)) \<and> isPending po'"
proof -
  have "promiseObject (call_begin args w) =
          Some ((fields_of w)\<lparr>isPending := True, error := JUndefined, result := JUndefined,
             resolve := Some (length (chains w)), reject := Some (length (chains w))\<rparr>)"
    by simp
  from actions_keep_pending[OF this, of acts] assms show ?thesis
    by (auto simp: makePromise_fresh)
qed

lemma makePromise_no_recall:
  assumes "promise (fields_of w) = None" and "no_recall beh"
  shows "invoked (snd (makePromise beh args w)) = invoked w @ [args]"
proof -
  obtain acts e where beh: "beh = Behaviour acts e" by (cases beh)
  with assms show ?thesis by (simp add: makePromise_fresh no_recall_invoked)
qed

subsection \<open>Calm targets\<close>

lemma run_actions_calm:
  "list_all calm_action acts \<Longrightarrow> promiseObject w = Some po \<Longrightarrow>
   \<exists>obs. run_actions acts w =
     (None, w\<lparr>promiseObject := Some (po\<lparr>abortListeners := abortListeners po @ regs_acts acts\<rparr>),
              observed := observed w @ obs\<rparr>)"
proof (induction acts arbitrary: w po)
  case Nil
  then show ?case by (auto intro: exI[of _ "[]"])
next
  case (Cons a as)
  show ?case
  proof (cases a)
    case (ReCall beh args)
    with Cons.prems show ?thesis by simp
  next
    case ReAbort
    with Cons.prems show ?thesis by simp
  next
    case (ReOnAbort l)
    let ?w = "w\<lparr>promiseObject := Some (po\<lparr>abortListeners := abortListeners po @ [l]\<rparr>)\<rparr>"
    from Cons.IH[of ?w "po\<lparr>abortListeners := abortListeners po @ [l]\<rparr>"] Cons.prems
    obtain obs where "run_actions as ?w =
       (None, ?w\<lparr>promiseObject :=
                   Some (po\<lparr>abortListeners := abortListeners po @ [l],
                           abortListeners := (abortListeners po @ [l]) @ regs_acts as\<rparr>),
                 observed := observed ?w @ obs\<rparr>)"
      by auto
    with ReOnAbort Cons.prems show ?thesis
      by (auto simp: onAbort_def intro: exI[of _ obs])
  next
    case Observe
    let ?w = "w\<lparr>observed := observed w @ [(isPending po, promise po)]\<rparr>"
    from Cons.IH[of ?w po] Cons.prems
    obtain obs where "run_actions as ?w =
       (None, ?w\<lparr>promiseObject := Some (po\<lparr>abortListeners := abortListeners po @ regs_acts as\<rparr>),
                 observed := observed ?w @ obs\<rparr>)"
      by auto
    with Observe Cons.prems show ?thesis
      by (auto intro: exI[of _ "(isPending po, promise po) # obs"])
  qed
qed

lemma makePromise_calm:
  assumes "calm (Behaviour acts e)" and "promise (fields_of w) = None"
  shows "\<exists>obs. makePromise (Behaviour acts e) args w =
     (length (chains w),
      w\<lparr>promiseObject :=
           Some ((fields_of w)\<lparr>isPending := True, error := JUndefined, result := JUndefined,
                   resolve := Some (length (chains w)), reject := Some (length (chains w)),
                   abortListeners := abortListeners (fields_of w) @ regs_acts acts,
                   promise := Some (length (chains w))\<rparr>),
         chains := chains w @ [final_chain e],
         queue := queue w @ first_jobs e (length (chains w)),
         invoked := invoked w @ [args],
         observed := observed w @ obs\<rparr>)"
proof -
  let ?c = "length (chains w)"
  let ?po1 = "(fields_of w)\<lparr>isPending := True, error := JUndefined, result := JUndefined,
                   resolve := Some ?c, reject := Some ?c\<rparr>"
  have "promiseObject (call_begin args w) = Some ?po1" by simp
  from run_actions_calm[OF _ this, of acts] assms(1)
  obtain obs where r: "run_actions acts (call_begin args w) =
     (None, (call_begin args w)\<lparr>promiseObject :=
                Some (?po1\<lparr>abortListeners := abortListeners ?po1 @ regs_acts acts\<rparr>),
              observed := observed (call_begin args w) @ obs\<rparr>)"
    by auto
  have "makePromise (Behaviour acts e) args w =
     (?c,
      w\<lparr>promiseObject :=
           Some ((fields_of w)\<lparr>isPending := True, error := JUndefined, result := JUndefined,
                   resolve := Some ?c, reject := Some ?c,
                   abortListeners := abortListeners (fields_of w) @ regs_acts acts,
                   promise := Some ?c\<rparr>),
         chains := chains w @ [final_chain e],
         queue := queue w @ first_jobs e ?c,
         invoked := invoked w @ [args],
         observed := observed w @ obs\<rparr>)"
    unfolding makePromise_fresh[OF assms(2)] r
    by (cases e)
       (simp_all add: call_end_def call_begin_def target_returns_def then_p0_def settle_p0_def
          upd_chain_def upd_po_def enqueue_def new_chain_def final_chain_def first_jobs_def
          Let_def)
  then show ?thesis by blast
qed

lemma calm_call_cases:
  assumes "calm beh"
  obtains (stored) po p where "promiseObject w = Some po" "promise po = Some p"
      "makePromise beh args w = (p, w)"
  | (fresh) acts e obs where "beh = Behaviour acts e" "promise (fields_of w) = None"
      "makePromise beh args w =
        (length (chains w),
         w\<lparr>promiseObject :=
           Some ((fields_of w)\<lparr>isPending := True, error := JUndefined, result := JUndefined,
                   resolve := Some (length (chains w)), reject := Some (length (chains w)),
                   abortListeners := abortListeners (fields_of w) @ regs_acts acts,
                   promise := Some (length (chains w))\<rparr>),
         chains := chains w @ [final_chain e],
         queue := queue w @ first_jobs e (length (chains w)),
         invoked := invoked w @ [args],
         observed := observed w @ obs\<rparr>)"
proof -
  obtain acts e where beh: "beh = Behaviour acts e" by (cases beh)
  show ?thesis
  proof (cases rule: makePromise_cases[where w = w and acts = acts and e = e and args = args])
    case (stored po p)
    with beh show ?thesis using that(1) by blast
  next
    case fresh
    from makePromise_calm[OF assms[unfolded beh] fresh(1), of args] beh fresh(1)
    show ?thesis using that(2) by blast
  qed
qed

section \<open>The invariant of the wrapper's state\<close>

lemma wjobs_ok_Cons [simp]: "wjobs_ok (j # js) c po = (js = [] \<and> stage_ok j c po)"
  by (cases js) simp_all

lemma wjobs_ok_snoc [simp]: "wjobs_ok (js @ [j]) c po = (js = [] \<and> stage_ok j c po)"
  by (cases js) simp_all

lemma run_job_length [simp]: "length (chains (run_job j w)) = length (chains w)"
  by (induction j w rule: run_job.induct) (auto simp: Let_def split: pstate.splits)

lemma inv_core_AwaitJob:
  assumes "inv_core w" and "queue w = AwaitJob x c oc # q"
  shows "inv_core (run_job (AwaitJob x c oc) (w\<lparr>queue := q\<rparr>))"
  using assms unfolding inv_core_def inv_po_def
  by (auto split: option.splits)

lemma inv_core_ThenJob:
  assumes "inv_core w" and "queue w = ThenJob c oc # q"
  shows "inv_core (run_job (ThenJob c oc) (w\<lparr>queue := q\<rparr>))"
  using assms unfolding inv_core_def inv_po_def
  by (cases oc) (auto simp: upd_chain_nth split: option.splits if_splits)

lemma inv_core_CatchJob:
  assumes "inv_core w" and "queue w = CatchJob c oc # q"
  shows "inv_core (run_job (CatchJob c oc) (w\<lparr>queue := q\<rparr>))"
  using assms unfolding inv_core_def inv_po_def
  by (cases oc) (auto simp: upd_chain_nth split: option.splits if_splits)

lemma inv_core_FinallyJob:
  assumes "inv_core w" and "queue w = FinallyJob c oc # q"
  shows "inv_core (run_job (FinallyJob c oc) (w\<lparr>queue := q\<rparr>))"
  using assms unfolding inv_core_def inv_po_def
  by (cases oc) (auto simp: upd_chain_nth split: option.splits if_splits)

lemma settle_p0_p0_then:
  "c' < length (chains w) \<Longrightarrow>
   p0_then (chains (settle_p0 c oc w) ! c') = p0_then (chains w ! c')"
  by (auto simp: settle_p0_def upd_chain_nth Let_def)

lemma inv_core_ResolveJob:
  assumes "inv_core w" and "queue w = ResolveJob c oc # q"
  shows "inv_core (run_job (ResolveJob c oc) (w\<lparr>queue := q\<rparr>))"
  using assms unfolding inv_core_def inv_po_def
  by (auto simp: settle_p0_chains settle_p0_queue settle_p0_p0_then
      split: option.splits if_splits)

lemma inv_core_ThunkJob:
  assumes "inv_core w" and "queue w = ThunkJob c oc # q"
  shows "inv_core (run_job (ThunkJob c oc) (w\<lparr>queue := q\<rparr>))"
  using assms unfolding inv_core_def inv_po_def
  by (auto simp: upd_chain_nth Let_def split: option.splits if_splits)

lemma inv_core_ThenableJob:
  assumes "inv_core w" and "queue w = ThenableJob c # q"
  shows "inv_core (run_job (ThenableJob c) (w\<lparr>queue := q\<rparr>))"
  using assms unfolding inv_core_def inv_po_def
  by (cases "pf (chains w ! c)")
     (auto simp: upd_chain_nth Let_def split: option.splits if_splits)

lemma inv_core_SettleJob:
  assumes "inv_core w" and "queue w = SettleJob c oc # q"
  shows "inv_core (run_job (SettleJob c oc) (w\<lparr>queue := q\<rparr>))"
  using assms unfolding inv_core_def inv_po_def
  by (auto simp: upd_chain_nth Let_def split: option.splits if_splits)

lemma inv_core_tick:
  assumes "inv_core w"
  shows "inv_core (tick w)"
proof (cases "queue w")
  case Nil
  with assms show ?thesis by (simp add: tick_def)
next
  case (Cons j q)
  with assms have "inv_core (run_job j (w\<lparr>queue := q\<rparr>))"
    by (cases j)
       (simp_all only: inv_core_AwaitJob inv_core_ThenJob inv_core_CatchJob
          inv_core_FinallyJob inv_core_ResolveJob inv_core_ThunkJob inv_core_ThenableJob
          inv_core_SettleJob)
  with Cons show ?thesis by (simp add: tick_def)
qed

lemma final_chain_p0:
  "p0 (final_chain e) = (case e of Throws err \<Rightarrow> Settled (Rejected err) | _ \<Rightarrow> Pending)"
  "p0_then (final_chain e) = (case e of Throws err \<Rightarrow> False | _ \<Rightarrow> True)"
  "pf (final_chain e) = Pending" "\<not> pf_then (final_chain e)" "p3 (final_chain e) = Pending"
  "waiters (final_chain e) = []"
  by (cases e; simp add: final_chain_def new_chain_def)+

lemma first_jobs_wjobs:
  "filter is_wjob (first_jobs e c) =
     (case e of Throws err \<Rightarrow> [ThenJob c (Rejected err)] | _ \<Rightarrow> [])"
  by (cases e) (simp_all add: first_jobs_def)

lemma first_jobs_cid: "j \<in> set (first_jobs e c) \<Longrightarrow> job_cid j = c \<and> is_wjob j \<or> job_cid j = c \<and> (\<exists>oc. j = ResolveJob c oc)"
  by (cases e) (auto simp: first_jobs_def)

lemma stage_ok_fields:
  "result po' = result po \<Longrightarrow> error po' = error po \<Longrightarrow> stage_ok j c po' = stage_ok j c po"
  by (induction j c po rule: stage_ok.induct) simp_all

lemma wjobs_ok_fields:
  "result po' = result po \<Longrightarrow> error po' = error po \<Longrightarrow> wjobs_ok js c po' = wjobs_ok js c po"
  using stage_ok_fields[of po' po] by (cases js) simp_all

lemma wjobs_ok_abortListeners [simp]:
  "wjobs_ok js c (po\<lparr>abortListeners := ls\<rparr>) = wjobs_ok js c po"
  by (rule wjobs_ok_fields) simp_all

lemma inv_core_makePromise:
  assumes "inv_core w" and "calm beh"
  shows "inv_core (snd (makePromise beh args w))"
  using assms(2)
proof (cases rule: calm_call_cases[where w = w and args = args])
  case (stored po p)
  with assms show ?thesis by simp
next
  case (fresh acts e obs)
  show ?thesis
  proof (cases "promiseObject w")
    case None
    with assms(1) fresh show ?thesis
      unfolding inv_core_def inv_po_def
      by (cases e)
         (auto simp: new_promiseObject_def final_chain_p0 first_jobs_wjobs)
  next
    case (Some po)
    with assms(1) fresh show ?thesis
      unfolding inv_core_def inv_po_def
      by (cases e)
         (auto simp: final_chain_p0 first_jobs_wjobs nth_append less_Suc_eq)
  qed
qed

lemma inv_core_abortPromise:
  assumes "inv_core w" and "promiseObject w = Some po"
  shows "inv_core (snd (abortPromise po w))"
proof (cases po w rule: abortPromise_cases)
  case idle
  with assms show ?thesis by simp
next
  case (throws cs e)
  with assms show ?thesis by (simp add: inv_core_def)
next
  case (returns cs)
  with assms show ?thesis
    unfolding inv_core_def inv_po_def
    by (auto simp: settle_p0_chains settle_p0_queue settle_p0_p0_then
        split: option.splits if_splits)
qed

lemma inv_core_onAbort:
  assumes "inv_core w" and "onAbort l w = Inr w'"
  shows "inv_core w'"
  using assms unfolding inv_core_def inv_po_def
  by (auto simp: onAbort_def split: option.splits if_splits)

lemma inv_core_settle_op:
  assumes "inv_core w"
  shows "inv_core (settle_op c oc w)"
  using assms unfolding inv_core_def inv_po_def
  by (auto simp: settle_op_def upd_chain_nth split: option.splits if_splits)

lemma inv_core_await:
  assumes "inv_core w"
  shows "inv_core (await x c w)"
  using assms unfolding inv_core_def inv_po_def
  by (cases "p3 (chains w ! c)")
     (auto simp: await_def upd_chain_nth split: option.splits if_splits)

lemma step_Abort:
  "step w Abort = (case promiseObject w of None \<Rightarrow> w | Some po \<Rightarrow> snd (abortPromise po w))"
  by (simp add: abort_def split: option.splits prod.splits)

lemma inv_core_step:
  assumes "inv_core w" and "calm_event e"
  shows "inv_core (step w e)"
proof (cases e)
  case (Call beh args)
  with assms show ?thesis by (simp add: inv_core_makePromise)
next
  case Abort
  with assms show ?thesis
    by (auto simp: step_Abort inv_core_abortPromise simp del: step.simps
        split: option.splits)
next
  case (OnAbort l)
  with assms show ?thesis
    by (auto simp: inv_core_onAbort split: sum.splits)
next
  case Tick
  with assms show ?thesis by (simp add: inv_core_tick)
next
  case (SettleOp c oc)
  with assms show ?thesis by (simp add: inv_core_settle_op)
next
  case (Await x c)
  with assms show ?thesis by (simp add: inv_core_await)
qed

lemma inv_core_init: "inv_core (dPromiseFunction eagerInit)"
  by (simp add: inv_core_def inv_po_def dPromiseFunction_def assignPromiseObject_def
      new_world_def new_promiseObject_def)

lemma run_job_queue: "\<exists>new. queue (run_job j w) = queue w @ new"
  by (induction j w rule: run_job.induct)
     (auto simp: Let_def settle_p0_queue split: pstate.splits)

lemma run_job_new_ids:
  assumes "job_cid j < length (chains w)"
  shows "\<forall>j' \<in> set (queue (run_job j w)). j' \<in> set (queue w) \<or> job_cid j' = job_cid j"
  using assms
  by (induction j w rule: run_job.induct)
     (auto simp: Let_def settle_p0_queue split: pstate.splits)

lemma inv_ids_tick:
  assumes "inv_ids w"
  shows "inv_ids (tick w)"
proof (cases "queue w")
  case Nil
  with assms show ?thesis by (simp add: tick_def)
next
  case (Cons j q)
  from assms Cons have j: "job_cid j < length (chains (w\<lparr>queue := q\<rparr>))"
    by (simp add: inv_ids_def)
  from run_job_new_ids[OF j] assms Cons show ?thesis
    by (auto simp: inv_ids_def tick_def)
qed

lemma inv_ids_makePromise:
  assumes "inv_ids w" and "calm beh"
  shows "inv_ids (snd (makePromise beh args w))"
  using assms(2)
proof (cases rule: calm_call_cases[where w = w and args = args])
  case (stored po p)
  with assms show ?thesis by simp
next
  case (fresh acts e obs)
  with assms(1) show ?thesis
    by (auto simp: inv_ids_def less_Suc_eq dest: first_jobs_cid)
qed

lemma inv_ids_abortPromise:
  assumes "inv_ids w"
  shows "inv_ids (snd (abortPromise po w))"
  using assms
  by (cases po w rule: abortPromise_cases)
     (auto simp: inv_ids_def settle_p0_queue split: option.splits)

lemma inv_ids_step:
  assumes "inv_ids w" and "calm_event e"
  shows "inv_ids (step w e)"
proof (cases e)
  case (Call beh args)
  with assms show ?thesis by (simp add: inv_ids_makePromise)
next
  case Abort
  with assms show ?thesis
    by (auto simp: step_Abort inv_ids_abortPromise simp del: step.simps split: option.splits)
next
  case (OnAbort l)
  with assms show ?thesis
    by (auto simp: onAbort_def inv_ids_def split: option.splits)
next
  case Tick
  with assms show ?thesis by (simp add: inv_ids_tick)
next
  case (SettleOp c oc)
  with assms show ?thesis by (auto simp: settle_op_def inv_ids_def)
next
  case (Await x c)
  with assms show ?thesis by (auto simp: await_def inv_ids_def split: pstate.splits)
qed

lemma run_job_tail_cells:
  assumes "\<not> is_tail_job c j" and "c < length (chains w)"
  shows "pf (chains (run_job j w) ! c) = pf (chains w ! c) \<and>
         pf_then (chains (run_job j w) ! c) = pf_then (chains w ! c) \<and>
         p3 (chains (run_job j w) ! c) = p3 (chains w ! c)"
  using assms
  by (induction j w rule: run_job.induct)
     (auto simp: Let_def upd_chain_nth settle_p0_cells split: pstate.splits)

lemma run_job_tail_jobs:
  assumes "\<not> is_tail_job c j" and "\<not> is_finally c j"
  shows "filter (is_tail_job c) (queue (run_job j w)) = filter (is_tail_job c) (queue w)"
  using assms
  by (induction j w rule: run_job.induct)
     (auto simp: Let_def settle_p0_queue split: pstate.splits)

lemma run_job_promise:
  assumes "promiseObject w = Some po" and "\<forall>c oc. j \<noteq> FinallyJob c oc"
  shows "\<exists>po'. promiseObject (run_job j w) = Some po' \<and> promise po' = promise po \<and>
               isPending po' = isPending po \<and> abortListeners po' = abortListeners po"
  using assms
  by (induction j w rule: run_job.induct)
     (auto simp: Let_def split: pstate.splits)

lemma run_job_finally_promise:
  assumes "promiseObject w = Some po"
  shows "\<exists>po'. promiseObject (run_job (FinallyJob c oc) w) = Some po' \<and> promise po' = None \<and>
               \<not> isPending po' \<and> abortListeners po' = []"
  using assms by simp

lemma inv_cur_run_job:
  assumes "inv_cur w" and "inv_core w" and "queue w = j # q"
  shows "inv_cur (run_job j (w\<lparr>queue := q\<rparr>))"
proof (cases "promiseObject w")
  case None
  then have "promiseObject (run_job j (w\<lparr>queue := q\<rparr>)) = None"
    by (simp add: run_job_po_None)
  then show ?thesis by (simp add: inv_cur_def)
next
  case (Some po)
  let ?w = "w\<lparr>queue := q\<rparr>"
  have po: "promiseObject ?w = Some po" using Some by simp
  show ?thesis
  proof (cases "\<exists>c oc. j = FinallyJob c oc")
    case True
    then obtain c oc where "j = FinallyJob c oc" by blast
    with run_job_finally_promise[OF po] show ?thesis
      by (auto simp: inv_cur_def)
  next
    case False
    then have nf: "\<forall>c oc. j \<noteq> FinallyJob c oc" by simp
    from run_job_promise[OF po nf] obtain po' where
      po': "promiseObject (run_job j ?w) = Some po'" "promise po' = promise po" by blast
    show ?thesis
    proof (cases "promise po")
      case None
      with po' show ?thesis by (simp add: inv_cur_def)
    next
      case (Some c)
      from assms(1) \<open>promiseObject w = Some po\<close> Some assms(3)
      have t: "\<not> is_tail_job c j" "filter (is_tail_job c) q = []"
        and cells: "pf (chains w ! c) = Pending" "\<not> pf_then (chains w ! c)"
                   "p3 (chains w ! c) = Pending"
        by (auto simp: inv_cur_def split: if_splits)
      from assms(2) \<open>promiseObject w = Some po\<close> Some
      have c: "c < length (chains ?w)" by (simp add: inv_core_def inv_po_def)
      from nf have nfc: "\<not> is_finally c j" by (cases j) auto
      from run_job_tail_cells[OF t(1) c] run_job_tail_jobs[OF t(1) nfc, of ?w] t(2) cells po' Some
      show ?thesis by (simp add: inv_cur_def)
    qed
  qed
qed

lemma inv_cur_tick:
  assumes "inv_cur w" and "inv_core w"
  shows "inv_cur (tick w)"
  using assms by (cases "queue w") (simp_all add: tick_def inv_cur_run_job)

lemma first_jobs_tail: "filter (is_tail_job c') (first_jobs e c) = []"
  by (cases e) (simp_all add: first_jobs_def)

lemma inv_cur_makePromise:
  assumes "inv_cur w" and "inv_ids w" and "calm beh"
  shows "inv_cur (snd (makePromise beh args w))"
  using assms(3)
proof (cases rule: calm_call_cases[where w = w and args = args])
  case (stored po p)
  with assms show ?thesis by simp
next
  case (fresh acts e obs)
  have nt: "filter (is_tail_job (length (chains w))) (queue w) = []"
  proof -
    have "\<forall>j \<in> set (queue w). \<not> is_tail_job (length (chains w)) j"
    proof
      fix j assume "j \<in> set (queue w)"
      with assms(2) have "job_cid j < length (chains w)" by (simp add: inv_ids_def)
      then show "\<not> is_tail_job (length (chains w)) j" by (cases j) auto
    qed
    then show ?thesis by (simp add: filter_empty_conv)
  qed
  with fresh show ?thesis
    by (simp add: inv_cur_def first_jobs_tail final_chain_p0)
qed

lemma inv_cur_abortPromise:
  assumes "inv_cur w" and "inv_core w" and "promiseObject w = Some po"
  shows "inv_cur (snd (abortPromise po w))"
  using assms
  by (cases po w rule: abortPromise_cases)
     (auto simp: inv_cur_def inv_core_def inv_po_def settle_p0_queue settle_p0_cells
        split: option.splits)

lemma inv_cur_step:
  assumes "inv_cur w" and "inv_core w" and "inv_ids w" and "calm_event e"
  shows "inv_cur (step w e)"
proof (cases e)
  case (Call beh args)
  with assms show ?thesis by (simp add: inv_cur_makePromise)
next
  case Abort
  with assms show ?thesis
    by (auto simp: step_Abort inv_cur_abortPromise simp del: step.simps split: option.splits)
next
  case (OnAbort l)
  with assms(1) show ?thesis
    by (auto simp: onAbort_def inv_cur_def split: option.splits)
next
  case Tick
  with assms show ?thesis by (simp add: inv_cur_tick)
next
  case (SettleOp c oc)
  with assms(1,2) show ?thesis
    by (auto simp: settle_op_def inv_cur_def inv_core_def inv_po_def upd_chain_nth
        split: option.splits)
next
  case (Await x c)
  with assms(1,2) show ?thesis
    by (cases "p3 (chains w ! c)")
       (auto simp: await_def inv_cur_def inv_core_def inv_po_def upd_chain_nth
          split: option.splits)
qed

subsection \<open>What waiters receive\<close>

lemma run_job_p3_settled:
  assumes "c < length (chains w)" and "p3 (chains w ! c) = Settled oc"
  shows "p3 (chains (run_job j w) ! c) = Settled oc"
  using assms
  by (induction j w rule: run_job.induct)
     (auto simp: Let_def upd_chain_nth settle_p0_cells split: pstate.splits)

lemma run_job_await_jobs:
  assumes "AwaitJob x c oc \<in> set (queue (run_job j w))"
  shows "AwaitJob x c oc \<in> set (queue w) \<or>
         (c < length (chains w) \<and> p3 (chains (run_job j w) ! c) = Settled oc)"
  using assms
  by (induction j w rule: run_job.induct)
     (auto simp: Let_def upd_chain_nth settle_p0_queue split: pstate.splits if_splits)

lemma run_job_delivered:
  assumes "(x, c, oc) \<in> set (delivered (run_job j w))"
  shows "(x, c, oc) \<in> set (delivered w) \<or> j = AwaitJob x c oc"
  using assms
  by (induction j w rule: run_job.induct)
     (auto simp: Let_def split: pstate.splits if_splits)

lemma inv_await_tick:
  assumes "inv_await w"
  shows "inv_await (tick w)"
proof (cases "queue w")
  case Nil
  with assms show ?thesis by (simp add: tick_def)
next
  case (Cons j q)
  let ?w = "w\<lparr>queue := q\<rparr>"
  have a: "\<And>x c oc. AwaitJob x c oc \<in> set (queue w) \<Longrightarrow>
             c < length (chains ?w) \<and> p3 (chains ?w ! c) = Settled oc"
    using assms by (simp add: inv_await_def)
  have d: "\<And>x c oc. (x, c, oc) \<in> set (delivered ?w) \<Longrightarrow>
             c < length (chains ?w) \<and> p3 (chains ?w ! c) = Settled oc"
    using assms by (simp add: inv_await_def)
  have "inv_await (run_job j ?w)"
    unfolding inv_await_def
  proof (intro conjI allI impI)
    fix x c oc
    assume "AwaitJob x c oc \<in> set (queue (run_job j ?w))"
    from run_job_await_jobs[OF this]
    show "c < length (chains (run_job j ?w))"
      using a[of x c oc] Cons by auto
  next
    fix x c oc
    assume "AwaitJob x c oc \<in> set (queue (run_job j ?w))"
    from run_job_await_jobs[OF this]
    show "p3 (chains (run_job j ?w) ! c) = Settled oc"
      using a[of x c oc] Cons run_job_p3_settled[of c ?w oc j] by auto
  next
    fix x c oc
    assume "(x, c, oc) \<in> set (delivered (run_job j ?w))"
    from run_job_delivered[OF this]
    show "c < length (chains (run_job j ?w))"
      using a[of x c oc] d[of x c oc] Cons by auto
  next
    fix x c oc
    assume "(x, c, oc) \<in> set (delivered (run_job j ?w))"
    from run_job_delivered[OF this]
    show "p3 (chains (run_job j ?w) ! c) = Settled oc"
      using a[of x c oc] d[of x c oc] Cons run_job_p3_settled[of c ?w oc j] by auto
  qed
  with Cons show ?thesis by (simp add: tick_def)
qed

text \<open>This invariant holds whatever the targets do.\<close>

lemma inv_await_step:
  assumes "inv_await w"
  shows "inv_await (step w e)"
proof (cases e)
  case (Call beh args)
  with inv_await_extends[OF assms extends_call] show ?thesis by simp
next
  case Abort
  with assms inv_await_extends[OF assms extends_abortPromise] show ?thesis
    by (auto simp: step_Abort simp del: step.simps split: option.splits)
next
  case (OnAbort l)
  with assms show ?thesis
    by (auto simp: onAbort_def inv_await_def split: option.splits)
next
  case Tick
  with assms show ?thesis by (simp add: inv_await_tick)
next
  case (SettleOp c oc)
  have "extends w (settle_op c oc w)"
    by (auto simp: extends_def settle_op_def upd_chain_nth)
  with SettleOp inv_await_extends[OF assms] show ?thesis by simp
next
  case (Await x c)
  with assms show ?thesis
    by (cases "p3 (chains w ! c)")
       (auto simp: await_def inv_await_def upd_chain_nth)
qed

lemma inv_await_init: "inv_await (dPromiseFunction eagerInit)"
  by (simp add: inv_await_def dPromiseFunction_def assignPromiseObject_def new_world_def)

lemma inv_await_run: "inv_await w \<Longrightarrow> inv_await (run es w)"
  by (induction es arbitrary: w) (simp_all add: run_Cons inv_await_step del: step.simps)

section \<open>Worlds reached by calm runs are well formed\<close>

lemma wf_world_step:
  assumes "wf_world w" and "calm_event e"
  shows "wf_world (step w e)"
  using assms
  by (simp add: wf_world_def inv_core_step inv_ids_step inv_cur_step inv_await_step
      del: step.simps)

lemma wf_world_tick: "wf_world w \<Longrightarrow> wf_world (tick w)"
  using wf_world_step[of w Tick] by simp

lemma wf_world_init: "wf_world (dPromiseFunction eagerInit)"
proof -
  have "inv_ids (dPromiseFunction eagerInit) \<and> inv_cur (dPromiseFunction eagerInit)"
    by (simp add: inv_ids_def inv_cur_def dPromiseFunction_def
        assignPromiseObject_def new_world_def new_promiseObject_def)
  then show ?thesis by (simp add: wf_world_def inv_core_init inv_await_init)
qed

lemma wf_world_run: "wf_world w \<Longrightarrow> calm_run es \<Longrightarrow> wf_world (run es w)"
  by (induction es arbitrary: w)
     (simp_all add: run_Cons wf_world_step calm_run_def del: step.simps)

lemma wf_world_reachable: "calm_run es \<Longrightarrow> wf_world (run es (dPromiseFunction eagerInit))"
  by (simp add: wf_world_run wf_world_init)

lemma wf_world_ticks: "wf_world w \<Longrightarrow> wf_world (ticks n w)"
  by (induction n arbitrary: w) (simp_all add: wf_world_tick)

section \<open>Facts about all runs\<close>

lemma call_po_Some: "\<exists>po. promiseObject (step w (Call beh args)) = Some po"
  using call_keeps_pending[of beh args w] by auto

lemma step_po_Some:
  assumes "promiseObject w = Some po"
  shows "\<exists>po'. promiseObject (step w e) = Some po'"
proof (cases e)
  case (Call beh args)
  then show ?thesis using call_po_Some by simp
next
  case Abort
  with assms abortPromise_po[OF assms] show ?thesis
    by (auto simp: step_Abort simp del: step.simps)
next
  case (OnAbort l)
  with assms show ?thesis
    by (simp add: onAbort_def)
next
  case Tick
  show ?thesis
  proof (cases "queue w")
    case Nil
    with Tick assms show ?thesis by (simp add: tick_def)
  next
    case (Cons j q)
    have "promiseObject (w\<lparr>queue := q\<rparr>) = Some po" using assms by simp
    from run_job_po_Some[OF this] Tick Cons show ?thesis by (simp add: tick_def)
  qed
next
  case (SettleOp c oc)
  with assms show ?thesis by (simp add: settle_op_def)
next
  case (Await x c)
  with assms show ?thesis by (simp add: await_def split: pstate.splits)
qed

lemma run_po_Some:
  "promiseObject w = Some po \<Longrightarrow> \<exists>po'. promiseObject (run es w) = Some po'"
proof (induction es arbitrary: w po)
  case Nil
  then show ?case by simp
next
  case (Cons e es)
  from step_po_Some[OF Cons.prems] obtain po' where "promiseObject (step w e) = Some po'" ..
  from Cons.IH[OF this] show ?case by (simp add: run_Cons)
qed

lemma run_with_call_po_Some:
  "\<exists>e \<in> set es. is_call e \<Longrightarrow> \<exists>po. promiseObject (run es w) = Some po"
proof (induction es arbitrary: w)
  case Nil
  then show ?case by simp
next
  case (Cons e es)
  show ?case
  proof (cases "is_call e")
    case True
    then obtain beh args where e: "e = Call beh args" by (cases e) auto
    obtain po where "promiseObject (step w e) = Some po"
      using call_po_Some e by blast
    from run_po_Some[OF this] show ?thesis by (simp add: run_Cons)
  next
    case False
    with Cons.prems have "\<exists>e \<in> set es. is_call e" by auto
    then show ?thesis using Cons.IH by (simp add: run_Cons)
  qed
qed

lemma step_no_call_po_None:
  "promiseObject w = None \<Longrightarrow> \<not> is_call e \<Longrightarrow> promiseObject (step w e) = None"
  by (cases e)
     (auto simp: abort_def onAbort_def tick_def settle_op_def await_def run_job_po_None
           split: list.splits pstate.splits)

lemma run_no_call_po_None:
  "promiseObject w = None \<Longrightarrow> \<forall>e \<in> set es. \<not> is_call e \<Longrightarrow> promiseObject (run es w) = None"
  by (induction es arbitrary: w) (simp_all add: run_Cons step_no_call_po_None)

subsection \<open>The pending flag between two events\<close>







subsection \<open>Listeners and the trace of called listeners\<close>

lemma run_job_fired [simp]: "fired (run_job j w) = fired w"
  by (induction j w rule: run_job.induct) (auto simp: Let_def split: pstate.splits)

lemma run_job_listeners:
  "listeners_of (run_job j w) = listeners_of w \<or> listeners_of (run_job j w) = []"
  by (induction j w rule: run_job.induct)
     (auto simp: listeners_of_def Let_def split: pstate.splits option.splits)

lemma registered_Cons: "registered (e # es) = registered [e] @ registered es"
  by (cases e) auto

lemma fires_step: "fires_within (registered [e]) w (step w e)"
proof (cases e)
  case (Call beh args)
  with fires_call[of beh w args] show ?thesis by simp
next
  case Abort
  show ?thesis
  proof (cases "promiseObject w")
    case None
    with Abort show ?thesis by (simp add: abort_def)
  next
    case (Some po)
    from fires_abortPromise[OF Some] Some Abort show ?thesis
      by (simp add: step_Abort del: step.simps)
  qed
next
  case (OnAbort l)
  show ?thesis
  proof (cases "onAbort l w")
    case (Inl err)
    with OnAbort show ?thesis by simp
  next
    case (Inr w')
    from fires_onAbort[OF Inr] Inr OnAbort show ?thesis by simp
  qed
next
  case Tick
  show ?thesis
  proof (cases "queue w")
    case Nil
    with Tick show ?thesis by (simp add: tick_def)
  next
    case (Cons j q)
    have "listeners_of (w\<lparr>queue := q\<rparr>) = listeners_of w" by (simp add: listeners_of_def)
    with run_job_listeners[of j "w\<lparr>queue := q\<rparr>"] Tick Cons show ?thesis
      by (auto simp: tick_def fires_within_def)
  qed
next
  case (SettleOp c oc)
  then show ?thesis by (simp add: settle_op_def listeners_of_def fires_within_def)
next
  case (Await x c)
  then show ?thesis
    by (simp add: await_def listeners_of_def fires_within_def split: pstate.splits)
qed

lemma fires_run: "fires_within (registered es) w (run es w)"
proof (induction es arbitrary: w)
  case Nil
  then show ?case by simp
next
  case (Cons e es)
  from fires_within_trans[OF fires_step[of e w] Cons.IH[of "step w e"]]
  show ?case using registered_Cons[of e es] by (simp add: run_Cons del: step.simps)
qed

lemma run_fired:
  "\<exists>fs. fired (run es w) = fired w @ fs \<and>
        set fs \<subseteq> set (listeners_of w) \<union> set (registered es)"
  using fires_run[of es w] by (simp add: fires_within_def)

lemma calm_actions_fired:
  "list_all calm_action acts \<Longrightarrow> fired (snd (run_actions acts w)) = fired w"
proof (induction acts arbitrary: w)
  case Nil
  then show ?case by simp
next
  case (Cons a as)
  then show ?case
    by (cases a) (auto simp: onAbort_def split: option.splits)
qed

lemma step_fired_unchanged:
  assumes "e \<noteq> Abort" and "calm_event e"
  shows "fired (step w e) = fired w"
proof (cases e)
  case (Call beh args)
  obtain acts en where beh: "beh = Behaviour acts en" by (cases beh)
  with Call assms(2) have c: "list_all calm_action acts" by simp
  show ?thesis
  proof (cases rule: makePromise_cases[where w = w and acts = acts and e = en and args = args])
    case (stored po p)
    with Call beh show ?thesis by simp
  next
    case fresh
    with Call beh calm_actions_fired[OF c] show ?thesis by simp
  qed
next
  case Abort
  with assms show ?thesis by simp
next
  case (OnAbort l)
  then show ?thesis by (auto simp: onAbort_def split: option.splits)
next
  case Tick
  then show ?thesis by (auto simp: tick_def split: list.splits)
next
  case (SettleOp c oc)
  then show ?thesis by (simp add: settle_op_def)
next
  case (Await x c)
  then show ?thesis by (simp add: await_def split: pstate.splits)
qed

section \<open>Progress of the microtask loop\<close>

lemma ticks_add: "ticks (m + n) w = ticks n (ticks m w)"
  by (induction m arbitrary: w) simp_all

lemma ticks_Suc_end: "ticks (Suc n) w = tick (ticks n w)"
  using ticks_add[of n 1 w] by simp

lemma tick_queue:
  assumes "queue w = j # q"
  shows "\<exists>new. queue (tick w) = q @ new"
proof -
  from run_job_queue[of j "w\<lparr>queue := q\<rparr>"] obtain new where
    "queue (run_job j (w\<lparr>queue := q\<rparr>)) = q @ new" by auto
  with assms show ?thesis by (auto simp: tick_def)
qed

lemma ticks_reach:
  assumes "queue w = pre @ j # post"
    and "\<forall>j' \<in> set pre. G j'"
    and "P w"
    and pres: "\<And>w j' q. P w \<Longrightarrow> queue w = j' # q \<Longrightarrow> G j' \<Longrightarrow> P (tick w)"
  shows "\<exists>post'. queue (ticks (length pre) w) = j # post' \<and> P (ticks (length pre) w)"
  using assms(1-3)
proof (induction pre arbitrary: w post)
  case Nil
  then show ?case by simp
next
  case (Cons j' pre')
  have qw: "queue w = j' # (pre' @ j # post)" using Cons.prems(1) by simp
  from tick_queue[OF qw] obtain new where
    "queue (tick w) = pre' @ j # (post @ new)" by auto
  moreover have "\<forall>j' \<in> set pre'. G j'" using Cons.prems(2) by simp
  moreover have "P (tick w)" using pres[OF Cons.prems(3) qw] Cons.prems(2) by simp
  ultimately have "\<exists>post'. queue (ticks (length pre') (tick w)) = j # post' \<and>
                     P (ticks (length pre') (tick w))"
    by (rule Cons.IH)
  then show ?case by simp
qed

lemma run_job_po_non_wjob:
  assumes "\<not> is_wjob j"
  shows "promiseObject (run_job j w) = promiseObject w"
  using assms
  by (induction j w rule: run_job.induct) (auto simp: Let_def split: pstate.splits)

lemma wjobs_ok_singleton: "wjobs_ok js c po \<Longrightarrow> \<exists>j. js = [j] \<and> stage_ok j c po"
  by (cases js) auto

lemma stage_ok_cid: "stage_ok j c po \<Longrightarrow> job_cid j = c"
  by (induction j c po rule: stage_ok.induct) auto

lemma wjobs_of_world:
  assumes "inv_core w" and "promiseObject w = Some po" and "j \<in> set (queue w)" and "is_wjob j"
  shows "filter is_wjob (queue w) = [j] \<and> promise po = Some (job_cid j) \<and>
         stage_ok j (job_cid j) po \<and> job_cid j < length (chains w)"
proof -
  from assms(3,4) have mem: "j \<in> set (filter is_wjob (queue w))" by simp
  then have ne: "filter is_wjob (queue w) \<noteq> []" by (metis empty_iff empty_set)
  from assms(1,2) have ip: "inv_po po (chains w) (filter is_wjob (queue w))"
    by (simp add: inv_core_def)
  show ?thesis
  proof (cases "promise po")
    case None
    with ip ne show ?thesis by (simp add: inv_po_def)
  next
    case (Some c)
    with ip ne have c: "c < length (chains w)"
      and ok: "wjobs_ok (filter is_wjob (queue w)) c po"
      by (auto simp: inv_po_def split: if_splits)
    from wjobs_ok_singleton[OF ok] obtain j0 where
      j0: "filter is_wjob (queue w) = [j0]" "stage_ok j0 c po" by blast
    with mem have "j0 = j" by simp
    with j0 Some c stage_ok_cid[OF j0(2)] show ?thesis by simp
  qed
qed

lemma reach_wjob:
  assumes "wf_world w" and "promiseObject w = Some po" and "j \<in> set (queue w)" and "is_wjob j"
  shows "\<exists>n q. wf_world (ticks n w) \<and> promiseObject (ticks n w) = Some po \<and>
               queue (ticks n w) = j # q"
proof -
  from assms(1) have ic: "inv_core w" by (simp add: wf_world_def)
  from wjobs_of_world[OF ic assms(2,3,4)] have "filter is_wjob (queue w) = [j]" by simp
  then obtain pre post where d: "queue w = pre @ j # post" "\<forall>u \<in> set pre. \<not> is_wjob u"
    by (auto simp: filter_eq_Cons_iff)
  have "\<exists>post'. queue (ticks (length pre) w) = j # post' \<and>
          (wf_world (ticks (length pre) w) \<and> promiseObject (ticks (length pre) w) = Some po)"
  proof (rule ticks_reach[where G = "\<lambda>u. \<not> is_wjob u"
                             and P = "\<lambda>w. wf_world w \<and> promiseObject w = Some po"])
    show "queue w = pre @ j # post" by (rule d(1))
    show "\<forall>j' \<in> set pre. \<not> is_wjob j'" by (rule d(2))
    show "wf_world w \<and> promiseObject w = Some po" using assms(1,2) by simp
  next
    fix w' j' q'
    assume a: "wf_world w' \<and> promiseObject w' = Some po" "queue w' = j' # q'" "\<not> is_wjob j'"
    from a(1) have "wf_world (tick w')" by (simp add: wf_world_tick)
    moreover from a have "promiseObject (tick w') = Some po"
      by (simp add: tick_def run_job_po_non_wjob)
    ultimately show "wf_world (tick w') \<and> promiseObject (tick w') = Some po" by simp
  qed
  then show ?thesis by blast
qed


lemma no_wjob_when_idle:
  assumes "wf_world w" and "promiseObject w = Some po" and "promise po = None"
    and "j \<in> set (queue w)"
  shows "\<not> is_wjob j"
proof
  assume "is_wjob j"
  from assms(1) have "inv_core w" by (simp add: wf_world_def)
  from wjobs_of_world[OF this assms(2,4) \<open>is_wjob j\<close>] assms(3) show False by simp
qed

lemma is_finally_wjob: "is_finally c j \<Longrightarrow> is_wjob j"
  by (cases j) auto

lemma tail_phase_tick:
  assumes "tail_phase c po s js w" and "queue w = j' # q" and "\<not> is_tail_job c j'"
  shows "tail_phase c po s js (tick w)"
proof -
  let ?w = "w\<lparr>queue := q\<rparr>"
  from assms(1) have wf: "wf_world w" and po: "promiseObject w = Some po"
    and idle: "promise po = None" and c: "c < length (chains ?w)"
    and cells: "pf (chains w ! c) = s" "\<not> pf_then (chains w ! c)" "p3 (chains w ! c) = Pending"
    and js: "filter (is_tail_job c) (queue w) = js"
    by (simp_all add: tail_phase_def)
  from no_wjob_when_idle[OF wf po idle, of j'] assms(2) have nw: "\<not> is_wjob j'" by simp
  then have nf: "\<not> is_finally c j'" using is_finally_wjob by blast
  have t: "tick w = run_job j' ?w" using assms(2) by (simp add: tick_def)
  have "promiseObject (tick w) = Some po"
    using run_job_po_non_wjob[OF nw, of ?w] po t by simp
  moreover have "c < length (chains (tick w))" using c t by simp
  moreover have "pf (chains (tick w) ! c) = s \<and> \<not> pf_then (chains (tick w) ! c) \<and>
                 p3 (chains (tick w) ! c) = Pending"
    using run_job_tail_cells[OF assms(3) c] cells t by simp
  moreover have "filter (is_tail_job c) (queue (tick w)) = js"
    using run_job_tail_jobs[OF assms(3) nf, of ?w] js assms(2,3) t by simp
  ultimately show ?thesis using wf idle by (simp add: tail_phase_def wf_world_tick)
qed

lemma reach_tail_job:
  assumes "tail_phase c po s (j # js) w"
  shows "\<exists>n q. tail_phase c po s (j # js) (ticks n w) \<and> queue (ticks n w) = j # q"
proof -
  from assms have "filter (is_tail_job c) (queue w) = j # js" by (simp add: tail_phase_def)
  then obtain pre post where d: "queue w = pre @ j # post" "\<forall>u \<in> set pre. \<not> is_tail_job c u"
    by (auto simp: filter_eq_Cons_iff)
  have "\<exists>post'. queue (ticks (length pre) w) = j # post' \<and>
          tail_phase c po s (j # js) (ticks (length pre) w)"
    by (rule ticks_reach[where G = "\<lambda>u. \<not> is_tail_job c u"
                           and P = "tail_phase c po s (j # js)", OF d(1) d(2) assms])
       (rule tail_phase_tick)
  then show ?thesis by blast
qed

lemma tick_ThenJob:
  assumes "promiseObject w = Some po" and "queue w = ThenJob c oc # q"
  shows "promiseObject (tick w) = Some (po_then oc po) \<and> CatchJob c oc \<in> set (queue (tick w))"
  using assms by (cases oc) (simp_all add: tick_def po_then_def)

lemma tick_CatchJob:
  assumes "promiseObject w = Some po" and "queue w = CatchJob c oc # q"
  shows "promiseObject (tick w) = Some (po_catch oc po) \<and>
         FinallyJob c oc \<in> set (queue (tick w))"
  using assms by (cases oc) (simp_all add: tick_def po_catch_def)

lemma tick_FinallyJob:
  assumes "wf_world w" and "promiseObject w = Some po" and "queue w = FinallyJob c oc # q"
  shows "tail_phase c (po_finally po) Pending [ThunkJob c oc, ThenableJob c] (tick w)"
proof -
  from assms(1) have ic: "inv_core w" and icur: "inv_cur w" by (simp_all add: wf_world_def)
  from wjobs_of_world[OF ic assms(2), of "FinallyJob c oc"] assms(3)
  have p: "promise po = Some c" and c: "c < length (chains w)" by simp_all
  from icur assms(2) p assms(3)
  have t: "filter (is_tail_job c) q = []"
    and cells: "pf (chains w ! c) = Pending" "\<not> pf_then (chains w ! c)"
               "p3 (chains w ! c) = Pending"
    by (simp_all add: inv_cur_def)
  have "wf_world (tick w)" using assms(1) by (rule wf_world_tick)
  then show ?thesis
    using assms(2,3) c t cells by (simp add: tail_phase_def tick_def po_finally_def)
qed

lemma tick_ThunkJob:
  assumes "tail_phase c po Pending (ThunkJob c oc # js) w" and "queue w = ThunkJob c oc # q"
  shows "tail_phase c po (Settled oc) js (tick w)"
proof -
  from assms(1) have "wf_world (tick w)" by (simp add: tail_phase_def wf_world_tick)
  then show ?thesis
    using assms by (simp add: tail_phase_def tick_def upd_chain_nth Let_def)
qed

lemma tick_ThenableJob:
  assumes "tail_phase c po (Settled oc) (ThenableJob c # js) w" and "queue w = ThenableJob c # q"
  shows "tail_phase c po (Settled oc) (js @ [SettleJob c oc]) (tick w)"
proof -
  from assms(1) have "wf_world (tick w)" by (simp add: tail_phase_def wf_world_tick)
  then show ?thesis
    using assms by (simp add: tail_phase_def tick_def)
qed

lemma tick_SettleJob:
  assumes "tail_phase c po s (SettleJob c oc # js) w" and "queue w = SettleJob c oc # q"
  shows "wf_world (tick w) \<and> promiseObject (tick w) = Some po \<and>
         c < length (chains (tick w)) \<and> p3 (chains (tick w) ! c) = Settled oc"
proof -
  from assms(1) have "wf_world (tick w)" by (simp add: tail_phase_def wf_world_tick)
  then show ?thesis
    using assms by (simp add: tail_phase_def tick_def upd_chain_nth)
qed

text \<open>
  Once the reaction of \<open>p0\<close> is queued with a settlement, finitely many turns
  of the microtask loop carry that settlement through the three closures to
  the returned promise.
\<close>

lemma settlement_propagates:
  assumes "wf_world w" and "promiseObject w = Some po" and "ThenJob c oc \<in> set (queue w)"
  shows "\<exists>n. wf_world (ticks n w) \<and>
              promiseObject (ticks n w) = Some (po_finally (po_catch oc (po_then oc po))) \<and>
              c < length (chains (ticks n w)) \<and>
              p3 (chains (ticks n w) ! c) = Settled oc"
proof -
  from reach_wjob[OF assms(1,2,3)] obtain n1 q1 where
    1: "wf_world (ticks n1 w)" "promiseObject (ticks n1 w) = Some po"
       "queue (ticks n1 w) = ThenJob c oc # q1" by auto
  let ?w2 = "tick (ticks n1 w)"
  from tick_ThenJob[OF 1(2,3)] wf_world_tick[OF 1(1)] have
    2: "wf_world ?w2" "promiseObject ?w2 = Some (po_then oc po)"
       "CatchJob c oc \<in> set (queue ?w2)" by simp_all
  from reach_wjob[OF 2] obtain n2 q2 where
    3: "wf_world (ticks n2 ?w2)" "promiseObject (ticks n2 ?w2) = Some (po_then oc po)"
       "queue (ticks n2 ?w2) = CatchJob c oc # q2" by auto
  let ?w4 = "tick (ticks n2 ?w2)"
  from tick_CatchJob[OF 3(2,3)] wf_world_tick[OF 3(1)] have
    4: "wf_world ?w4" "promiseObject ?w4 = Some (po_catch oc (po_then oc po))"
       "FinallyJob c oc \<in> set (queue ?w4)" by simp_all
  from reach_wjob[OF 4] obtain n3 q3 where
    5: "wf_world (ticks n3 ?w4)"
       "promiseObject (ticks n3 ?w4) = Some (po_catch oc (po_then oc po))"
       "queue (ticks n3 ?w4) = FinallyJob c oc # q3" by auto
  let ?w6 = "tick (ticks n3 ?w4)"
  let ?po = "po_finally (po_catch oc (po_then oc po))"
  from tick_FinallyJob[OF 5]
  have 6: "tail_phase c ?po Pending [ThunkJob c oc, ThenableJob c] ?w6" .
  from reach_tail_job[OF 6] obtain n4 q4 where
    7: "tail_phase c ?po Pending [ThunkJob c oc, ThenableJob c] (ticks n4 ?w6)"
       "queue (ticks n4 ?w6) = ThunkJob c oc # q4" by auto
  let ?w8 = "tick (ticks n4 ?w6)"
  from tick_ThunkJob[OF 7]
  have 8: "tail_phase c ?po (Settled oc) [ThenableJob c] ?w8" .
  from reach_tail_job[OF 8] obtain n5 q5 where
    9: "tail_phase c ?po (Settled oc) [ThenableJob c] (ticks n5 ?w8)"
       "queue (ticks n5 ?w8) = ThenableJob c # q5" by auto
  let ?w10 = "tick (ticks n5 ?w8)"
  from tick_ThenableJob[OF 9]
  have 10: "tail_phase c ?po (Settled oc) [SettleJob c oc] ?w10" by simp
  from reach_tail_job[OF 10] obtain n6 q6 where
    11: "tail_phase c ?po (Settled oc) [SettleJob c oc] (ticks n6 ?w10)"
        "queue (ticks n6 ?w10) = SettleJob c oc # q6" by auto
  let ?w12 = "tick (ticks n6 ?w10)"
  from tick_SettleJob[OF 11]
  have 12: "wf_world ?w12 \<and> promiseObject ?w12 = Some ?po \<and>
            c < length (chains ?w12) \<and> p3 (chains ?w12 ! c) = Settled oc" .
  have "?w12 = ticks (Suc n1 + Suc n2 + Suc n3 + Suc n4 + Suc n5 + Suc n6) w"
    by (simp only: ticks_add ticks_Suc_end)
  with 12 show ?thesis by metis
qed

lemma settled_stable_tick:
  assumes "wf_world w" and "promiseObject w = Some po" and "promise po = None"
    and "c < length (chains w)" and "p3 (chains w ! c) = Settled oc"
  shows "wf_world (tick w) \<and> promiseObject (tick w) = Some po \<and>
         c < length (chains (tick w)) \<and> p3 (chains (tick w) ! c) = Settled oc"
proof (cases "queue w")
  case Nil
  with assms show ?thesis by (simp add: tick_def)
next
  case (Cons j q)
  let ?w = "w\<lparr>queue := q\<rparr>"
  from no_wjob_when_idle[OF assms(1,2,3), of j] Cons have "\<not> is_wjob j" by simp
  from run_job_po_non_wjob[OF this, of ?w] assms(2)
  have "promiseObject (run_job j ?w) = Some po" by simp
  moreover have "p3 (chains (run_job j ?w) ! c) = Settled oc"
    using run_job_p3_settled[of c ?w oc j] assms(4,5) by simp
  moreover have "wf_world (tick w)" using assms(1) by (rule wf_world_tick)
  ultimately show ?thesis
    using Cons assms(4) by (simp add: tick_def)
qed

lemma settled_stable_ticks:
  assumes "wf_world w" and "promiseObject w = Some po" and "promise po = None"
    and "c < length (chains w)" and "p3 (chains w ! c) = Settled oc"
  shows "promiseObject (ticks k w) = Some po \<and> p3 (chains (ticks k w) ! c) = Settled oc"
  using assms
proof (induction k arbitrary: w)
  case 0
  then show ?case by simp
next
  case (Suc k)
  from settled_stable_tick[OF Suc.prems] Suc.IH[of "tick w"] Suc.prems(3)
  show ?case by simp
qed

lemma settlement_propagates_for_good:
  assumes "wf_world w" and "promiseObject w = Some po" and "ThenJob c oc \<in> set (queue w)"
  shows "\<exists>n. \<forall>m \<ge> n.
              promiseObject (ticks m w) = Some (po_finally (po_catch oc (po_then oc po))) \<and>
              p3 (chains (ticks m w) ! c) = Settled oc"
proof -
  let ?po = "po_finally (po_catch oc (po_then oc po))"
  from settlement_propagates[OF assms] obtain n where
    n: "wf_world (ticks n w)" "promiseObject (ticks n w) = Some ?po"
       "c < length (chains (ticks n w))" "p3 (chains (ticks n w) ! c) = Settled oc" by blast
  have idle: "promise ?po = None" by (simp add: po_finally_def)
  {
    fix m assume "n \<le> m"
    then obtain k where m: "m = n + k" using le_Suc_ex by blast
    from settled_stable_ticks[OF n(1,2) idle n(3,4), of k]
    have "promiseObject (ticks m w) = Some ?po \<and> p3 (chains (ticks m w) ! c) = Settled oc"
      by (simp add: m ticks_add)
  }
  then show ?thesis by blast
qed



text \<open>
  With a promise stored and its \<open>p0\<close> settled, one closure of
  \<open>makePromise\<close> is queued for the chain of the stored promise.
\<close>

lemma wjob_when_settled:
  assumes "wf_world w" and "promiseObject w = Some po" and "promise po = Some c"
    and "p0 (chains w ! c) \<noteq> Pending"
  shows "\<exists>j. j \<in> set (queue w) \<and> is_wjob j \<and> job_cid j = c"
proof -
  from assms have ok: "wjobs_ok (filter is_wjob (queue w)) c po"
    by (simp add: wf_world_def inv_core_def inv_po_def)
  from wjobs_ok_singleton[OF ok] obtain j where
    j: "filter is_wjob (queue w) = [j]" "stage_ok j c po" by blast
  then have "j \<in> set (filter is_wjob (queue w))" by simp
  then have "j \<in> set (queue w) \<and> is_wjob j" by simp
  with stage_ok_cid[OF j(2)] show ?thesis by blast
qed

text \<open>
  The callback of \<open>finally\<close> is reached from each of the three closures, and
  what it leaves stays while the loop runs.
\<close>

lemma finally_reached:
  assumes "wf_world w" and "promiseObject w = Some po" and "FinallyJob c oc \<in> set (queue w)"
  shows "\<exists>n. wf_world (ticks n w) \<and> promiseObject (ticks n w) = Some (po_finally po)"
proof -
  from reach_wjob[OF assms] obtain n q where
    n: "wf_world (ticks n w)" "promiseObject (ticks n w) = Some po"
       "queue (ticks n w) = FinallyJob c oc # q" by auto
  from tick_FinallyJob[OF n] have "tail_phase c (po_finally po) Pending
      [ThunkJob c oc, ThenableJob c] (ticks (Suc n) w)"
    by (simp only: ticks_Suc_end)
  then show ?thesis unfolding tail_phase_def by blast
qed

lemma catch_reached:
  assumes "wf_world w" and "promiseObject w = Some po" and "CatchJob c oc \<in> set (queue w)"
  shows "\<exists>n. wf_world (ticks n w) \<and>
             promiseObject (ticks n w) = Some (po_finally (po_catch oc po))"
proof -
  from reach_wjob[OF assms] obtain n q where
    n: "wf_world (ticks n w)" "promiseObject (ticks n w) = Some po"
       "queue (ticks n w) = CatchJob c oc # q" by auto
  from tick_CatchJob[OF n(2,3)] wf_world_tick[OF n(1)] have
    "wf_world (tick (ticks n w))" "promiseObject (tick (ticks n w)) = Some (po_catch oc po)"
    "FinallyJob c oc \<in> set (queue (tick (ticks n w)))" by simp_all
  from finally_reached[OF this] obtain k where
    "wf_world (ticks k (tick (ticks n w)))"
    "promiseObject (ticks k (tick (ticks n w))) = Some (po_finally (po_catch oc po))" by blast
  moreover have "ticks k (tick (ticks n w)) = ticks (Suc n + k) w"
    by (simp only: ticks_add ticks_Suc_end)
  ultimately show ?thesis by metis
qed

lemma then_reached:
  assumes "wf_world w" and "promiseObject w = Some po" and "ThenJob c oc \<in> set (queue w)"
  shows "\<exists>n. wf_world (ticks n w) \<and>
             promiseObject (ticks n w) = Some (po_finally (po_catch oc (po_then oc po)))"
  using settlement_propagates[OF assms] by blast

lemma idle_stable_ticks:
  assumes "wf_world w" and "promiseObject w = Some po" and "promise po = None"
  shows "promiseObject (ticks k w) = Some po"
  using assms
proof (induction k arbitrary: w)
  case 0
  then show ?case by simp
next
  case (Suc k)
  have "wf_world (tick w) \<and> promiseObject (tick w) = Some po"
  proof (cases "queue w")
    case Nil
    with Suc.prems show ?thesis by (simp add: tick_def)
  next
    case (Cons j q)
    from no_wjob_when_idle[OF Suc.prems, of j] Cons have "\<not> is_wjob j" by simp
    from run_job_po_non_wjob[OF this, of "w\<lparr>queue := q\<rparr>"] Suc.prems(2) Cons
    show ?thesis using wf_world_tick[OF Suc.prems(1)] by (simp add: tick_def)
  qed
  with Suc.IH[of "tick w"] Suc.prems(3) show ?case by simp
qed

lemma cleared_for_good:
  assumes "wf_world w" and "promiseObject w = Some po" and "promise po = Some c"
    and "p0 (chains w ! c) \<noteq> Pending"
  shows "\<exists>n. \<forall>m \<ge> n. \<exists>po'. promiseObject (ticks m w) = Some po' \<and> promise po' = None \<and>
                          \<not> isPending po' \<and> abortListeners po' = []"
proof -
  from wjob_when_settled[OF assms] obtain j where
    j: "j \<in> set (queue w)" "is_wjob j" by blast
  have "\<exists>n po1. wf_world (ticks n w) \<and> promiseObject (ticks n w) = Some (po_finally po1)"
  proof (cases j)
    case (ThenJob c' oc)
    with then_reached[OF assms(1,2), of c' oc] j show ?thesis by blast
  next
    case (CatchJob c' oc)
    with catch_reached[OF assms(1,2), of c' oc] j show ?thesis by blast
  next
    case (FinallyJob c' oc)
    with finally_reached[OF assms(1,2), of c' oc] j show ?thesis by blast
  qed (use j in simp_all)
  then obtain n po1 where
    n: "wf_world (ticks n w)" "promiseObject (ticks n w) = Some (po_finally po1)" by blast
  have idle: "promise (po_finally po1) = None" by (simp add: po_finally_def)
  {
    fix m assume "n \<le> m"
    then obtain k where m: "m = n + k" using le_Suc_ex by blast
    from idle_stable_ticks[OF n idle, of k]
    have "promiseObject (ticks m w) = Some (po_finally po1)"
      by (simp add: m ticks_add)
    then have "\<exists>po'. promiseObject (ticks m w) = Some po' \<and> promise po' = None \<and>
                          \<not> isPending po' \<and> abortListeners po' = []"
      by (simp add: po_finally_def)
  }
  then show ?thesis by blast
qed

text \<open>Turns of the loop as a run of events.\<close>

lemma ticks_run: "ticks n w = run (replicate n Tick) w"
  by (induction n arbitrary: w) (simp_all add: run_Cons)

section \<open>Memoization\<close>

lemmas eval_defs =
  run_def dPromiseFunction_def assignPromiseObject_def new_world_def new_promiseObject_def
  makePromise.simps target_returns_def then_p0_def new_chain_def upd_po_def upd_chain_def
  enqueue_def settle_p0_def abortPromise_def abort_def onAbort_def tick_def settle_op_def
  await_def isPromisePending_def getPromiseResult_def getPromiseError_def new_AbortError_def
  listeners_of_def not_found_def Let_def

lemma calls_memo:
  assumes "promiseObject w = Some po" and "promise po = Some p"
  shows "calls rest w = (replicate (length rest) p, w)"
  using assms
  by (induction rest) (auto simp: makePromise_stored)

lemma deliveries_agree:
  assumes "(x, c, oc) \<in> set (delivered (run es (dPromiseFunction eagerInit)))"
    and "(y, c, oc') \<in> set (delivered (run es (dPromiseFunction eagerInit)))"
  shows "oc = oc'"
proof -
  let ?w = "run es (dPromiseFunction eagerInit)"
  have "inv_await ?w" by (simp add: inv_await_run inv_await_init)
  with assms have "p3 (chains ?w ! c) = Settled oc" "p3 (chains ?w ! c) = Settled oc'"
    unfolding inv_await_def by blast+
  then show ?thesis by simp
qed

text \<open>
  Claim C1, as amended.  In every world that the wrapper can reach,
  whatever the targets have done: a call made while a promise is stored
  returns that promise and changes nothing, so the target is not invoked and
  the arguments are dropped; a call made with no promise stored, of a target
  that does not call the wrapper from inside its own call, invokes the target
  once with its arguments and stores the promise it returns, and all calls that
  follow at once return that same promise without another invocation; and
  any two settlements handed to waiters of one promise are the same.
\<close>

theorem concurrent_calls_share_one_promise:
  fixes es eagerInit
  defines "w \<equiv> run es (dPromiseFunction eagerInit)"
  shows "(\<forall>po p. promiseObject w = Some po \<and> promise po = Some p \<longrightarrow>
             makePromise beh args w = (p, w))
       \<and> ((\<forall>po. promiseObject w = Some po \<longrightarrow> promise po = None) \<and> no_recall beh \<longrightarrow>
            (\<exists>p w1 w2 po2.
               makePromise beh args w = (p, w1) \<and>
               calls rest w1 = (replicate (length rest) p, w2) \<and>
               invoked w2 = invoked w @ [args] \<and>
               promiseObject w2 = Some po2 \<and> promise po2 = Some p))
       \<and> (\<forall>x y c oc oc'. (x, c, oc) \<in> set (delivered w) \<and> (y, c, oc') \<in> set (delivered w)
             \<longrightarrow> oc = oc')"
proof (intro conjI allI impI)
  fix po p
  assume "promiseObject w = Some po \<and> promise po = Some p"
  then show "makePromise beh args w = (p, w)" by (simp add: makePromise_stored)
next
  assume a: "(\<forall>po. promiseObject w = Some po \<longrightarrow> promise po = None) \<and> no_recall beh"
  then have f: "promise (fields_of w) = None"
    by (cases "promiseObject w") (simp_all add: new_promiseObject_def)
  obtain acts e where beh: "beh = Behaviour acts e" by (cases beh)
  obtain p w1 where m: "makePromise beh args w = (p, w1)" by fastforce
  from makePromise_fresh[OF f, of acts e args] m beh have p: "p = length (chains w)" by simp
  from makePromise_promise[OF f, of acts e args] m beh p obtain po' where
    po': "promiseObject w1 = Some po'" "promise po' = Some p" by auto
  from makePromise_no_recall[OF f, of beh args] a m have
    i: "invoked w1 = invoked w @ [args]" by simp
  from calls_memo[OF po', of rest] m i po'
  show "\<exists>p w1 w2 po2.
               makePromise beh args w = (p, w1) \<and>
               calls rest w1 = (replicate (length rest) p, w2) \<and>
               invoked w2 = invoked w @ [args] \<and>
               promiseObject w2 = Some po2 \<and> promise po2 = Some p"
    by blast
next
  fix x y c oc oc'
  assume "(x, c, oc) \<in> set (delivered w) \<and> (y, c, oc') \<in> set (delivered w)"
  then show "oc = oc'" unfolding w_def using deliveries_agree by blast
qed

theorem concurrent_calls_witness:
  "makePromise (Behaviour [] ReturnsPending) [JStr ''test2'']
       (run [Call (Behaviour [Observe] ReturnsPending) [JStr ''test1'']] (dPromiseFunction False))
     = (0, run [Call (Behaviour [Observe] ReturnsPending) [JStr ''test1'']]
             (dPromiseFunction False))
   \<and> no_recall (Behaviour [ReOnAbort (Listener 1 None), ReAbort] ReturnsPending)
   \<and> (\<exists>p w1 w2 po2.
         makePromise (Behaviour [ReOnAbort (Listener 1 None), ReAbort] ReturnsPending)
            [JStr ''test1''] (run [] (dPromiseFunction False)) = (p, w1) \<and>
         calls [(Behaviour [] ReturnsPending, [JStr ''test2'']),
                (Behaviour [] (Throws (JError ''x'')), [])] w1
           = (replicate (length [(Behaviour [] ReturnsPending, [JStr ''test2'']),
                                 (Behaviour [] (Throws (JError ''x'')), [])]) p, w2) \<and>
         invoked w2 = invoked (run [] (dPromiseFunction False)) @ [[JStr ''test1'']] \<and>
         promiseObject w2 = Some po2 \<and> promise po2 = Some p)
   \<and> delivered (run [Call (Behaviour [] ReturnsPending) [JStr ''test1''], Await 1 0, Await 2 0,
                       SettleOp 0 (Fulfilled (JNum 5)),
                       Tick, Tick, Tick, Tick, Tick, Tick, Tick, Tick, Tick]
                  (dPromiseFunction False))
       = [(1, 0, Fulfilled (JNum 5)), (2, 0, Fulfilled (JNum 5))]"
proof -
  let ?w = "run [Call (Behaviour [Observe] ReturnsPending) [JStr ''test1'']]
              (dPromiseFunction False)"
  have a: "promiseObject ?w
             = Some (new_promiseObject\<lparr>isPending := True, resolve := Some 0, reject := Some 0,
                                        promise := Some 0\<rparr>)
           \<and> promise (new_promiseObject\<lparr>isPending := True, resolve := Some 0, reject := Some 0,
                                        promise := Some 0\<rparr>) = Some 0"
    by (simp add: eval_defs)
  have b: "(\<forall>po. promiseObject (run [] (dPromiseFunction False)) = Some po \<longrightarrow> promise po = None)
           \<and> no_recall (Behaviour [ReOnAbort (Listener 1 None), ReAbort] ReturnsPending)"
    by (simp add: eval_defs)
  have c: "delivered (run [Call (Behaviour [] ReturnsPending) [JStr ''test1''], Await 1 0,
                       Await 2 0, SettleOp 0 (Fulfilled (JNum 5)),
                       Tick, Tick, Tick, Tick, Tick, Tick, Tick, Tick, Tick]
                  (dPromiseFunction False))
       = [(1, 0, Fulfilled (JNum 5)), (2, 0, Fulfilled (JNum 5))]"
    by (simp add: eval_defs)
  note T1 = concurrent_calls_share_one_promise
         [of "[Call (Behaviour [Observe] ReturnsPending) [JStr ''test1'']]" False
             "Behaviour [] ReturnsPending" "[JStr ''test2'']"]
  note T2 = concurrent_calls_share_one_promise
         [of "[]" False "Behaviour [ReOnAbort (Listener 1 None), ReAbort] ReturnsPending"
             "[JStr ''test1'']"
             "[(Behaviour [] ReturnsPending, [JStr ''test2'']),
               (Behaviour [] (Throws (JError ''x'')), [])]"]
  from T1 a have 1: "makePromise (Behaviour [] ReturnsPending) [JStr ''test2''] ?w = (0, ?w)"
    by blast
  from T2 b have 2: "\<exists>p w1 w2 po2.
         makePromise (Behaviour [ReOnAbort (Listener 1 None), ReAbort] ReturnsPending)
            [JStr ''test1''] (run [] (dPromiseFunction False)) = (p, w1) \<and>
         calls [(Behaviour [] ReturnsPending, [JStr ''test2'']),
                (Behaviour [] (Throws (JError ''x'')), [])] w1
           = (replicate (length [(Behaviour [] ReturnsPending, [JStr ''test2'']),
                                 (Behaviour [] (Throws (JError ''x'')), [])]) p, w2) \<and>
         invoked w2 = invoked (run [] (dPromiseFunction False)) @ [[JStr ''test1'']] \<and>
         promiseObject w2 = Some po2 \<and> promise po2 = Some p"
    by blast
  from 1 b 2 c show ?thesis by blast
qed

text \<open>
  The claim as stated fails.  \<open>promiseObject.promise\<close> is assigned only
  after \<open>new Promise\<close> and the three chained calls have returned, so a
  target that calls the wrapper from inside its own call finds no promise
  stored: the target is invoked a second time, with the inner call's
  arguments, and the inner call gets a promise that is not the one the outer
  call returns.  The two promises then settle apart: here the inner caller
  receives a fulfilment and the outer caller a rejection.
\<close>

theorem nested_call_invokes_target_again:
  "invoked (run [Call (Behaviour [ReCall (Behaviour [] ReturnsPending) [JStr ''inner'']]
                         ReturnsPending) [JStr ''outer'']] (dPromiseFunction False))
     = [[JStr ''outer''], [JStr ''inner'']]
   \<and> received (run [Call (Behaviour [ReCall (Behaviour [] ReturnsPending) [JStr ''inner'']]
                         ReturnsPending) [JStr ''outer'']] (dPromiseFunction False)) = [1]
   \<and> fst (makePromise (Behaviour [ReCall (Behaviour [] ReturnsPending) [JStr ''inner'']]
                         ReturnsPending) [JStr ''outer''] (dPromiseFunction False)) = 0
   \<and> delivered (run [Call (Behaviour [ReCall (Behaviour [] ReturnsPending) [JStr ''inner'']]
                         ReturnsPending) [JStr ''outer''],
                      Await 1 1, Await 2 0,
                      SettleOp 1 (Fulfilled (JNum 5)), SettleOp 0 (Rejected (JError ''x'')),
                      Tick, Tick, Tick, Tick, Tick, Tick, Tick, Tick, Tick, Tick,
                      Tick, Tick, Tick, Tick, Tick, Tick, Tick, Tick, Tick, Tick]
                  (dPromiseFunction False))
       = [(1, 1, Fulfilled (JNum 5)), (2, 0, Rejected (JError ''x''))]"
  by (simp add: eval_defs)

section \<open>Inspection and misuse\<close>

text \<open>
  Claim C6, as amended.  Once the \<open>PromiseObject\<close> fields are assigned, at
  decoration time with \<open>eagerInit\<close> or by the first invocation, the
  inspection functions \<open>isPromisePending\<close>, \<open>getPromiseResult\<close> and
  \<open>getPromiseError\<close> never throw, whatever has happened since; before the
  first invocation of an eagerly initialised method they report \<open>false\<close>,
  \<open>undefined\<close> and \<open>undefined\<close>.
\<close>

theorem inspection_never_throws_once_initialised:
  assumes "eagerInit \<or> (\<exists>e \<in> set es. is_call e)"
  shows "(\<exists>b r e. isPromisePending (run es (dPromiseFunction eagerInit)) = Inr b
            \<and> getPromiseResult (run es (dPromiseFunction eagerInit)) = Inr r
            \<and> getPromiseError (run es (dPromiseFunction eagerInit)) = Inr e)
       \<and> isPromisePending (dPromiseFunction True) = Inr False
       \<and> getPromiseResult (dPromiseFunction True) = Inr JUndefined
       \<and> getPromiseError (dPromiseFunction True) = Inr JUndefined"
proof -
  have "\<exists>po. promiseObject (run es (dPromiseFunction eagerInit)) = Some po"
  proof (cases eagerInit)
    case True
    have "promiseObject (dPromiseFunction True) = Some new_promiseObject"
      by (simp add: dPromiseFunction_def assignPromiseObject_def)
    from run_po_Some[OF this] True show ?thesis by simp
  next
    case False
    with assms have "\<exists>e \<in> set es. is_call e" by simp
    then show ?thesis by (rule run_with_call_po_Some)
  qed
  then obtain po where "promiseObject (run es (dPromiseFunction eagerInit)) = Some po" ..
  then show ?thesis
    by (simp add: isPromisePending_def getPromiseResult_def getPromiseError_def
        dPromiseFunction_def assignPromiseObject_def new_promiseObject_def)
qed

theorem inspection_never_throws_witness:
  "(False \<or> (\<exists>e \<in> set [OnAbort (Listener 3 None),
                           Call (Behaviour [] ReturnsPending) [JNum 1]]. is_call e))
   \<and> isPromisePending (run [OnAbort (Listener 3 None),
                             Call (Behaviour [] ReturnsPending) [JNum 1]]
                         (dPromiseFunction False)) = Inr True
   \<and> getPromiseResult (run [OnAbort (Listener 3 None),
                             Call (Behaviour [] ReturnsPending) [JNum 1]]
                         (dPromiseFunction False)) = Inr JUndefined
   \<and> getPromiseError (run [OnAbort (Listener 3 None),
                            Call (Behaviour [] ReturnsPending) [JNum 1]]
                        (dPromiseFunction False)) = Inr JUndefined"
proof -
  let ?es = "[OnAbort (Listener 3 None), Call (Behaviour [] ReturnsPending) [JNum 1]]"
  have h: "False \<or> (\<exists>e \<in> set ?es. is_call e)"
    by simp
  have v: "promiseObject (run ?es (dPromiseFunction False))
           = Some (new_promiseObject\<lparr>isPending := True, resolve := Some 0, reject := Some 0,
                                      promise := Some 0\<rparr>)"
    by (simp add: eval_defs)
  from inspection_never_throws_once_initialised[OF h] v show ?thesis
    by (simp add: isPromisePending_def getPromiseResult_def getPromiseError_def
        new_promiseObject_def)
qed

text \<open>
  The claim as stated fails: a method decorated without \<open>eagerInit\<close> has no
  \<open>_isDPromise\<close> property before its first invocation, and each inspection
  function throws \<open>Error('Promise object not found')\<close>.
\<close>

theorem inspection_throws_before_first_call:
  "isPromisePending (dPromiseFunction False) = Inl (JError ''Promise object not found'')
   \<and> getPromiseResult (dPromiseFunction False) = Inl (JError ''Promise object not found'')
   \<and> getPromiseError (dPromiseFunction False) = Inl (JError ''Promise object not found'')"
  by (simp add: isPromisePending_def getPromiseResult_def getPromiseError_def
      dPromiseFunction_def new_world_def not_found_def)

text \<open>
  Claim C7, as amended.  A function object without the \<open>_isDPromise\<close>
  property is what a never-wrapped callable is, and what a method decorated
  without \<open>eagerInit\<close> is until its first invocation.  On it \<open>abort\<close>,
  \<open>onAbort\<close> and the three inspection functions all throw
  \<open>Error('Promise object not found')\<close>, whatever else was attempted before.
\<close>

theorem misuse_throws_without_promise_object:
  assumes "\<not> (\<exists>e \<in> set es. is_call e)"
  shows "abort (run es (dPromiseFunction False)) = Inl (JError ''Promise object not found'')
       \<and> onAbort l (run es (dPromiseFunction False)) = Inl (JError ''Promise object not found'')
       \<and> isPromisePending (run es (dPromiseFunction False))
           = Inl (JError ''Promise object not found'')
       \<and> getPromiseResult (run es (dPromiseFunction False))
           = Inl (JError ''Promise object not found'')
       \<and> getPromiseError (run es (dPromiseFunction False))
           = Inl (JError ''Promise object not found'')"
proof -
  have "promiseObject (dPromiseFunction False) = None"
    by (simp add: dPromiseFunction_def new_world_def)
  moreover from assms have "\<forall>e \<in> set es. \<not> is_call e" by simp
  ultimately
  have "promiseObject (run es (dPromiseFunction False)) = None"
    by (rule run_no_call_po_None)
  then show ?thesis
    by (simp add: abort_def onAbort_def isPromisePending_def getPromiseResult_def
        getPromiseError_def not_found_def)
qed

theorem misuse_throws_witness:
  "\<not> (\<exists>e \<in> set [Abort, Tick, OnAbort (Listener 5 None)]. is_call e)
   \<and> abort (run [Abort, Tick, OnAbort (Listener 5 None)] (dPromiseFunction False))
       = Inl (JError ''Promise object not found'')
   \<and> onAbort (Listener 6 None) (run [Abort, Tick, OnAbort (Listener 5 None)]
                                   (dPromiseFunction False))
       = Inl (JError ''Promise object not found'')
   \<and> isPromisePending (run [Abort, Tick, OnAbort (Listener 5 None)] (dPromiseFunction False))
       = Inl (JError ''Promise object not found'')"
proof -
  have h: "\<not> (\<exists>e \<in> set [Abort, Tick, OnAbort (Listener 5 None)]. is_call e)" by simp
  from misuse_throws_without_promise_object[OF h, of "Listener 6 None"] h
  show ?thesis by blast
qed

text \<open>
  The claim as stated fails for a wrapped method on which no call has ever
  started when it was decorated with \<open>eagerInit\<close>: nothing throws, \<open>abort\<close>
  returns without effect and \<open>onAbort\<close> registers the listener.
\<close>

theorem eager_method_does_not_throw_before_first_call:
  "abort (dPromiseFunction True) = Inr (None, dPromiseFunction True)
   \<and> onAbort (Listener 1 None) (dPromiseFunction True)
       = Inr (new_world\<lparr>promiseObject :=
                Some (new_promiseObject\<lparr>abortListeners := [Listener 1 None]\<rparr>)\<rparr>)
   \<and> isPromisePending (dPromiseFunction True) = Inr False
   \<and> getPromiseResult (dPromiseFunction True) = Inr JUndefined
   \<and> getPromiseError (dPromiseFunction True) = Inr JUndefined"
  by (simp add: abort_def onAbort_def abortPromise_def isPromisePending_def
      getPromiseResult_def getPromiseError_def dPromiseFunction_def assignPromiseObject_def
      new_world_def new_promiseObject_def)

section \<open>Read after write on decorated accessors\<close>










section \<open>The pending flag and the stored promise\<close>







section \<open>Settlements and the two fields\<close>

text \<open>
  Claim C3, as amended.  In every world reached by a calm run \<open>result\<close>
  and \<open>error\<close> are never both present, and both are absent while the inner
  promise \<open>p0\<close> of the call in flight is unsettled.  When the callback of
  \<open>finally\<close> runs for a fulfilment with value \<open>v\<close> it leaves \<open>result\<close>
  equal to \<open>v\<close> and \<open>error\<close> absent; when it runs for a rejection (a
  failure or an abort) with reason \<open>e\<close> it leaves \<open>error\<close> equal to \<open>e\<close>
  and \<open>result\<close> absent; in both cases nothing is pending any more.  And
  once \<open>p0\<close> is settled and its reaction is queued, finitely many turns of
  the loop settle the returned promise in the same way and leave the fields
  like that.  So exactly one of the two is present after a settlement whose
  value or reason is not \<open>undefined\<close>, and none after a settlement with
  \<open>undefined\<close>.
\<close>

theorem result_and_error_after_settlement:
  fixes es eagerInit
  defines "w \<equiv> run es (dPromiseFunction eagerInit)"
  assumes calm: "calm_run es"
  shows "(\<forall>po. promiseObject w = Some po \<longrightarrow> result po = JUndefined \<or> error po = JUndefined)
       \<and> (\<forall>po c. promiseObject w = Some po \<and> promise po = Some c \<and>
                  p0 (chains w ! c) = Pending \<longrightarrow>
             result po = JUndefined \<and> error po = JUndefined)
       \<and> (\<forall>c oc q. queue w = FinallyJob c oc # q \<longrightarrow>
             (\<exists>po'. promiseObject (tick w) = Some po' \<and> \<not> isPending po' \<and>
                    (case oc of
                       Fulfilled v \<Rightarrow> result po' = v \<and> error po' = JUndefined
                     | Rejected e \<Rightarrow> error po' = e \<and> result po' = JUndefined)))
       \<and> (\<forall>c oc. ThenJob c oc \<in> set (queue w) \<longrightarrow>
             (\<exists>n. \<forall>m \<ge> n.
                p3 (chains (ticks m w) ! c) = Settled oc \<and>
                (case oc of
                   Fulfilled v \<Rightarrow> getPromiseResult (ticks m w) = Inr v \<and>
                                  getPromiseError (ticks m w) = Inr JUndefined
                 | Rejected e \<Rightarrow> getPromiseError (ticks m w) = Inr e \<and>
                                 getPromiseResult (ticks m w) = Inr JUndefined)))"
proof (intro conjI allI impI)
  have wfw: "wf_world w" unfolding w_def using calm by (rule wf_world_reachable)
  then have wf: "inv_core w" by (simp add: wf_world_def)
  {
    fix po assume "promiseObject w = Some po"
    with wf show "result po = JUndefined \<or> error po = JUndefined"
      by (simp add: inv_core_def inv_po_def)
  }
  {
    fix po c
    assume "promiseObject w = Some po \<and> promise po = Some c \<and> p0 (chains w ! c) = Pending"
    with wf show "result po = JUndefined" and "error po = JUndefined"
      by (simp_all add: inv_core_def inv_po_def)
  }
  {
    fix c oc q
    assume q: "queue w = FinallyJob c oc # q"
    show "\<exists>po'. promiseObject (tick w) = Some po' \<and> \<not> isPending po' \<and>
                    (case oc of
                       Fulfilled v \<Rightarrow> result po' = v \<and> error po' = JUndefined
                     | Rejected e \<Rightarrow> error po' = e \<and> result po' = JUndefined)"
    proof (cases "promiseObject w")
      case None
      with wf q show ?thesis by (simp add: inv_core_def)
    next
      case (Some po)
      with wf q have "stage_ok (FinallyJob c oc) c po"
        by (cases oc; cases "promise po")
           (auto simp: inv_core_def inv_po_def split: if_splits)
      with Some q show ?thesis
        by (cases oc) (simp_all add: tick_def)
    qed
  }
  fix c oc
  assume t: "ThenJob c oc \<in> set (queue w)"
  with wf obtain po where po: "promiseObject w = Some po"
    by (cases "promiseObject w") (auto simp: inv_core_def)
  from wjobs_of_world[OF wf po t] have
    f: "result po = JUndefined" "error po = JUndefined" by simp_all
  from settlement_propagates_for_good[OF wfw po t] obtain n where
    n: "\<forall>m \<ge> n. promiseObject (ticks m w) = Some (po_finally (po_catch oc (po_then oc po))) \<and>
                 p3 (chains (ticks m w) ! c) = Settled oc"
    by blast
  have "\<forall>m \<ge> n.
                p3 (chains (ticks m w) ! c) = Settled oc \<and>
                (case oc of
                   Fulfilled v \<Rightarrow> getPromiseResult (ticks m w) = Inr v \<and>
                                  getPromiseError (ticks m w) = Inr JUndefined
                 | Rejected e \<Rightarrow> getPromiseError (ticks m w) = Inr e \<and>
                                 getPromiseResult (ticks m w) = Inr JUndefined)"
    using n f
    by (cases oc)
       (simp_all add: getPromiseResult_def getPromiseError_def po_finally_def po_catch_def
          po_then_def)
  then show "\<exists>n. \<forall>m \<ge> n.
                p3 (chains (ticks m w) ! c) = Settled oc \<and>
                (case oc of
                   Fulfilled v \<Rightarrow> getPromiseResult (ticks m w) = Inr v \<and>
                                  getPromiseError (ticks m w) = Inr JUndefined
                 | Rejected e \<Rightarrow> getPromiseError (ticks m w) = Inr e \<and>
                                 getPromiseResult (ticks m w) = Inr JUndefined)"
    by blast
qed

theorem result_and_error_witness:
  "calm_run [Call (Behaviour [] ReturnsPending) [], SettleOp 0 (Fulfilled (JNum 1)), Tick]
   \<and> queue (run [Call (Behaviour [] ReturnsPending) [], SettleOp 0 (Fulfilled (JNum 1)), Tick]
              (dPromiseFunction True)) = [ThenJob 0 (Fulfilled (JNum 1))]
   \<and> (\<exists>n. \<forall>m \<ge> n.
         p3 (chains (ticks m (run [Call (Behaviour [] ReturnsPending) [],
                                   SettleOp 0 (Fulfilled (JNum 1)), Tick]
                                (dPromiseFunction True))) ! 0) = Settled (Fulfilled (JNum 1)) \<and>
         getPromiseResult (ticks m (run [Call (Behaviour [] ReturnsPending) [],
                                   SettleOp 0 (Fulfilled (JNum 1)), Tick]
                                (dPromiseFunction True))) = Inr (JNum 1) \<and>
         getPromiseError (ticks m (run [Call (Behaviour [] ReturnsPending) [],
                                   SettleOp 0 (Fulfilled (JNum 1)), Tick]
                                (dPromiseFunction True))) = Inr JUndefined)"
proof -
  let ?es = "[Call (Behaviour [] ReturnsPending) [], SettleOp 0 (Fulfilled (JNum 1)), Tick]"
  let ?w = "run ?es (dPromiseFunction True)"
  have c: "calm_run ?es" by (simp add: calm_run_def)
  have a: "queue ?w = [ThenJob 0 (Fulfilled (JNum 1))]"
    by (simp add: eval_defs)
  then have m: "ThenJob 0 (Fulfilled (JNum 1)) \<in> set (queue ?w)" by simp
  note T = result_and_error_after_settlement[OF c, of True]
  from T m have "\<exists>n. \<forall>m \<ge> n.
                p3 (chains (ticks m ?w) ! 0) = Settled (Fulfilled (JNum 1)) \<and>
                (case Fulfilled (JNum 1) of
                   Fulfilled v \<Rightarrow> getPromiseResult (ticks m ?w) = Inr v \<and>
                                  getPromiseError (ticks m ?w) = Inr JUndefined
                 | Rejected e \<Rightarrow> getPromiseError (ticks m ?w) = Inr e \<and>
                                 getPromiseResult (ticks m ?w) = Inr JUndefined)"
    by blast
  with c a show ?thesis by simp
qed

text \<open>
  The claim as stated fails.  A target that fulfils with \<open>undefined\<close> (an
  \<open>async\<close> method that returns nothing) leaves both fields absent after its
  settlement, although the method has been called and the returned promise
  is fulfilled.
\<close>

theorem both_absent_after_settlement_with_undefined:
  "getPromiseResult (run [Call (Behaviour [] ReturnsPending) [],
                          SettleOp 0 (Fulfilled JUndefined),
                          Tick, Tick, Tick, Tick, Tick, Tick, Tick] (dPromiseFunction True))
     = Inr JUndefined
   \<and> getPromiseError (run [Call (Behaviour [] ReturnsPending) [],
                          SettleOp 0 (Fulfilled JUndefined),
                          Tick, Tick, Tick, Tick, Tick, Tick, Tick] (dPromiseFunction True))
     = Inr JUndefined
   \<and> isPromisePending (run [Call (Behaviour [] ReturnsPending) [],
                          SettleOp 0 (Fulfilled JUndefined),
                          Tick, Tick, Tick, Tick, Tick, Tick, Tick] (dPromiseFunction True))
     = Inr False
   \<and> map p3 (chains (run [Call (Behaviour [] ReturnsPending) [],
                          SettleOp 0 (Fulfilled JUndefined),
                          Tick, Tick, Tick, Tick, Tick, Tick, Tick] (dPromiseFunction True)))
     = [Settled (Fulfilled JUndefined)]
   \<and> invoked (run [Call (Behaviour [] ReturnsPending) [],
                          SettleOp 0 (Fulfilled JUndefined),
                          Tick, Tick, Tick, Tick, Tick, Tick, Tick] (dPromiseFunction True))
     = [[]]"
  by (simp add: eval_defs)

text \<open>
  Calm runs are needed: when a target calls the wrapper from inside its own
  call, two chains write the same two fields, and after a fulfilment of one
  and a rejection of the other both \<open>result\<close> and \<open>error\<close> are present.
\<close>

lemma both_present_after_nested_call:
  "getPromiseResult (run [Call (Behaviour [ReCall (Behaviour [] ReturnsPending) []]
                                  ReturnsPending) [],
                          SettleOp 1 (Fulfilled (JNum 5)), SettleOp 0 (Rejected (JError ''x'')),
                          Tick, Tick, Tick, Tick, Tick, Tick, Tick, Tick, Tick, Tick,
                          Tick, Tick, Tick, Tick, Tick, Tick, Tick, Tick, Tick, Tick]
                      (dPromiseFunction True)) = Inr (JNum 5)
   \<and> getPromiseError (run [Call (Behaviour [ReCall (Behaviour [] ReturnsPending) []]
                                  ReturnsPending) [],
                          SettleOp 1 (Fulfilled (JNum 5)), SettleOp 0 (Rejected (JError ''x'')),
                          Tick, Tick, Tick, Tick, Tick, Tick, Tick, Tick, Tick, Tick,
                          Tick, Tick, Tick, Tick, Tick, Tick, Tick, Tick, Tick, Tick]
                      (dPromiseFunction True)) = Inr (JError ''x'')"
  by (simp add: eval_defs)

section \<open>The life of the abort listeners\<close>

lemma abort_all_return:
  assumes "promiseObject w = Some po" and "isPending po" and "all_return (abortListeners po)"
  shows "abort w = Inr (None, snd (abortPromise po w))"
    and "step w Abort = snd (abortPromise po w)"
    and "fired (snd (abortPromise po w)) = fired w @ abortListeners po"
    and "promiseObject (snd (abortPromise po w)) = Some (po\<lparr>abortListeners := []\<rparr>)"
  using assms call_listeners_all_return[OF assms(3)]
  by (simp_all add: abort_def abortPromise_def Let_def split: option.splits)

lemma listeners_cleared_for_good:
  assumes "wf_world w" and "promiseObject w = Some po" and "promise po = Some c"
    and "p0 (chains w ! c) \<noteq> Pending"
  shows "\<exists>n. \<forall>m \<ge> n. listeners_of (ticks m w) = [] \<and> isPromisePending (ticks m w) = Inr False"
proof -
  from cleared_for_good[OF assms] obtain n where
    "\<forall>m \<ge> n. \<exists>po'. promiseObject (ticks m w) = Some po' \<and> promise po' = None \<and>
                    \<not> isPending po' \<and> abortListeners po' = []" by blast
  then have "\<forall>m \<ge> n. listeners_of (ticks m w) = [] \<and> isPromisePending (ticks m w) = Inr False"
    by (auto simp: listeners_of_def isPromisePending_def)
  then show ?thesis by blast
qed

text \<open>
  Claim C5, as amended.  In every world reached by a calm run that has the
  \<open>PromiseObject\<close>: \<open>onAbort\<close> appends its listener whether or not a
  promise is stored, and leaves the stored promise and the pending flag as
  they were; once the inner promise \<open>p0\<close> of the stored promise's chain is
  settled, finitely many turns of the microtask loop lead to the callback of
  \<open>finally\<close>, after which the list is empty and nothing is pending while
  only the loop runs; the turn in which that callback runs leaves the list
  empty; and an abort made while pending, when every registered listener
  returns, leaves the list empty.
\<close>

theorem abort_listeners_lifecycle:
  fixes es eagerInit
  defines "w \<equiv> run es (dPromiseFunction eagerInit)"
  assumes calm: "calm_run es" and po: "promiseObject w = Some po"
  shows "(\<exists>w' po'. onAbort l w = Inr w' \<and> promiseObject w' = Some po' \<and>
              abortListeners po' = abortListeners po @ [l] \<and> promise po' = promise po \<and>
              isPending po' = isPending po)
       \<and> (\<forall>c. promise po = Some c \<and> p0 (chains w ! c) \<noteq> Pending \<longrightarrow>
             (\<exists>n. \<forall>m \<ge> n. listeners_of (ticks m w) = [] \<and>
                            isPromisePending (ticks m w) = Inr False))
       \<and> (\<forall>c oc q. queue w = FinallyJob c oc # q \<longrightarrow> listeners_of (tick w) = [])
       \<and> (isPending po \<and> all_return (abortListeners po) \<longrightarrow>
             listeners_of (step w Abort) = [])"
proof -
  have wf: "wf_world w" unfolding w_def using calm by (rule wf_world_reachable)
  have 1: "\<exists>w' po'. onAbort l w = Inr w' \<and> promiseObject w' = Some po' \<and>
              abortListeners po' = abortListeners po @ [l] \<and> promise po' = promise po \<and>
              isPending po' = isPending po"
    using po by (simp add: onAbort_def)
  have 2: "\<forall>c. promise po = Some c \<and> p0 (chains w ! c) \<noteq> Pending \<longrightarrow>
             (\<exists>n. \<forall>m \<ge> n. listeners_of (ticks m w) = [] \<and>
                            isPromisePending (ticks m w) = Inr False)"
    using listeners_cleared_for_good[OF wf po] by blast
  have 3: "\<forall>c oc q. queue w = FinallyJob c oc # q \<longrightarrow> listeners_of (tick w) = []"
    using po by (auto simp: tick_def listeners_of_def)
  have 4: "isPending po \<and> all_return (abortListeners po) \<longrightarrow>
             listeners_of (step w Abort) = []"
    using abort_all_return(2,4)[OF po] by (auto simp: listeners_of_def simp del: step.simps)
  from 1 2 3 4 show ?thesis by blast
qed

theorem abort_listeners_lifecycle_witness:
  "calm_run [OnAbort (Listener 7 None),
             Call (Behaviour [ReOnAbort (Listener 8 None)]
                     (ReturnsSettled (Fulfilled (JNum 1)))) [], Tick]
   \<and> promiseObject (run [OnAbort (Listener 7 None),
                         Call (Behaviour [ReOnAbort (Listener 8 None)]
                                 (ReturnsSettled (Fulfilled (JNum 1)))) [], Tick]
                       (dPromiseFunction True))
     = Some \<lparr>abortListeners = [Listener 7 None, Listener 8 None], isPending = True,
             error = JUndefined, result = JUndefined,
             promise = Some 0, resolve = Some 0, reject = Some 0\<rparr>
   \<and> p0 (chains (run [OnAbort (Listener 7 None),
                      Call (Behaviour [ReOnAbort (Listener 8 None)]
                              (ReturnsSettled (Fulfilled (JNum 1)))) [], Tick]
                    (dPromiseFunction True)) ! 0) = Settled (Fulfilled (JNum 1))
   \<and> (\<exists>n. \<forall>m \<ge> n.
         listeners_of (ticks m (run [OnAbort (Listener 7 None),
                      Call (Behaviour [ReOnAbort (Listener 8 None)]
                              (ReturnsSettled (Fulfilled (JNum 1)))) [], Tick]
                    (dPromiseFunction True))) = [] \<and>
         isPromisePending (ticks m (run [OnAbort (Listener 7 None),
                      Call (Behaviour [ReOnAbort (Listener 8 None)]
                              (ReturnsSettled (Fulfilled (JNum 1)))) [], Tick]
                    (dPromiseFunction True))) = Inr False)
   \<and> all_return [Listener 7 None, Listener 8 None]
   \<and> listeners_of (step (run [OnAbort (Listener 7 None),
                      Call (Behaviour [ReOnAbort (Listener 8 None)]
                              (ReturnsSettled (Fulfilled (JNum 1)))) [], Tick]
                    (dPromiseFunction True)) Abort) = []"
proof -
  let ?es = "[OnAbort (Listener 7 None),
             Call (Behaviour [ReOnAbort (Listener 8 None)]
                     (ReturnsSettled (Fulfilled (JNum 1)))) [], Tick]"
  let ?w = "run ?es (dPromiseFunction True)"
  let ?po = "\<lparr>abortListeners = [Listener 7 None, Listener 8 None], isPending = True,
             error = JUndefined, result = JUndefined,
             promise = Some (0::nat), resolve = Some (0::nat), reject = Some (0::nat)\<rparr>"
  have c: "calm_run ?es" by (simp add: calm_run_def)
  have a: "promiseObject ?w = Some ?po" by (simp add: eval_defs)
  have b: "p0 (chains ?w ! 0) = Settled (Fulfilled (JNum 1))" by (simp add: eval_defs)
  have r: "all_return [Listener 7 None, Listener 8 None]" by (simp add: all_return_def)
  have d: "promise ?po = Some 0 \<and> p0 (chains ?w ! 0) \<noteq> Pending" using b by simp
  have e: "isPending ?po \<and> all_return (abortListeners ?po)" using r by simp
  note T = abort_listeners_lifecycle[OF c a]
  from T d have 1: "\<exists>n. \<forall>m \<ge> n. listeners_of (ticks m ?w) = [] \<and>
                            isPromisePending (ticks m ?w) = Inr False"
    by blast
  from T e have 2: "listeners_of (step ?w Abort) = []" by blast
  from c a b 1 r 2 show ?thesis by blast
qed

text \<open>
  The claim as stated fails: after a call has settled and nothing is in
  flight, \<open>onAbort\<close> still registers its listener.
\<close>

theorem listeners_nonempty_with_nothing_in_flight:
  "listeners_of (run [Call (Behaviour [] (ReturnsSettled (Fulfilled (JNum 1)))) [],
                      Tick, Tick, Tick, Tick, Tick, Tick, Tick, OnAbort (Listener 1 None)]
                   (dPromiseFunction True)) = [Listener 1 None]
   \<and> map_option promise
        (promiseObject (run [Call (Behaviour [] (ReturnsSettled (Fulfilled (JNum 1)))) [],
                             Tick, Tick, Tick, Tick, Tick, Tick, Tick,
                             OnAbort (Listener 1 None)]
                          (dPromiseFunction True))) = Some None
   \<and> isPromisePending (run [Call (Behaviour [] (ReturnsSettled (Fulfilled (JNum 1)))) [],
                      Tick, Tick, Tick, Tick, Tick, Tick, Tick, OnAbort (Listener 1 None)]
                   (dPromiseFunction True)) = Inr False"
  by (simp add: eval_defs)

text \<open>
  Claim C8, as amended.  Listeners are called only by an abort made while
  the pending flag is set: no other event of a calm run calls one, and an
  abort made while the flag is clear calls none.  The callback of \<open>finally\<close>
  empties the list of listeners whatever the settlement (success, failure or
  abort), and in a calm run it is reached in finitely many turns of the loop
  once the inner promise is settled; an abort made while pending empties
  the list when every registered listener returns.  From then on only
  listeners registered afterwards can be called, whatever happens: a listener
  registered before or during a call is never called on a later call.  When a
  listener throws, the abort stops there: the listeners up to that one have been
  called and the list stays as it was.
\<close>

theorem listeners_cleared_on_every_settlement:
  assumes "promiseObject w = Some po"
  shows "listeners_of (run_job (FinallyJob c oc) w) = []
       \<and> (\<exists>fs. fired (run es (run_job (FinallyJob c oc) w)) = fired w @ fs \<and>
               set fs \<subseteq> set (registered es))
       \<and> (isPending po \<and> all_return (abortListeners po) \<longrightarrow>
            listeners_of (step w Abort) = [] \<and>
            (\<exists>fs. fired (run es (step w Abort)) = fired w @ abortListeners po @ fs \<and>
                  set fs \<subseteq> set (registered es)))
       \<and> (\<forall>cs err. isPending po \<and> call_listeners (abortListeners po) = (cs, Some err) \<longrightarrow>
            listeners_of (step w Abort) = abortListeners po \<and>
            fired (step w Abort) = fired w @ cs)
       \<and> (\<not> isPending po \<longrightarrow> fired (step w Abort) = fired w)
       \<and> (e \<noteq> Abort \<and> calm_event e \<longrightarrow> fired (step w e) = fired w)
       \<and> (\<forall>es0 eagerInit c0.
            calm_run es0 \<and> w = run es0 (dPromiseFunction eagerInit) \<and>
            promise po = Some c0 \<and> p0 (chains w ! c0) \<noteq> Pending \<longrightarrow>
            (\<exists>n. \<forall>m \<ge> n. listeners_of (ticks m w) = []))"
proof -
  have 1: "listeners_of (run_job (FinallyJob c oc) w) = []"
    using assms by (simp add: listeners_of_def)
  from run_fired[of es "run_job (FinallyJob c oc) w"] 1
  have 2: "\<exists>fs. fired (run es (run_job (FinallyJob c oc) w)) = fired w @ fs \<and>
               set fs \<subseteq> set (registered es)"
    by simp
  have 3: "isPending po \<and> all_return (abortListeners po) \<longrightarrow>
            listeners_of (step w Abort) = [] \<and>
            (\<exists>fs. fired (run es (step w Abort)) = fired w @ abortListeners po @ fs \<and>
                  set fs \<subseteq> set (registered es))"
  proof
    assume p: "isPending po \<and> all_return (abortListeners po)"
    note A = abort_all_return[OF assms conjunct1[OF p] conjunct2[OF p]]
    have l: "listeners_of (step w Abort) = []"
      using A(2,4) by (simp add: listeners_of_def del: step.simps)
    have f: "fired (step w Abort) = fired w @ abortListeners po"
      using A(2,3) by (simp del: step.simps)
    from run_fired[of es "step w Abort"] l f
    show "listeners_of (step w Abort) = [] \<and>
            (\<exists>fs. fired (run es (step w Abort)) = fired w @ abortListeners po @ fs \<and>
                  set fs \<subseteq> set (registered es))"
      by (simp del: step.simps)
  qed
  have 4: "\<forall>cs err. isPending po \<and> call_listeners (abortListeners po) = (cs, Some err) \<longrightarrow>
            listeners_of (step w Abort) = abortListeners po \<and>
            fired (step w Abort) = fired w @ cs"
    using assms by (auto simp: abort_def abortPromise_def listeners_of_def)
  have 5: "\<not> isPending po \<longrightarrow> fired (step w Abort) = fired w"
    using assms by (simp add: abort_def abortPromise_def)
  have 6: "e \<noteq> Abort \<and> calm_event e \<longrightarrow> fired (step w e) = fired w"
    using step_fired_unchanged[of e w] by blast
  have 7: "\<forall>es0 eagerInit c0.
            calm_run es0 \<and> w = run es0 (dPromiseFunction eagerInit) \<and>
            promise po = Some c0 \<and> p0 (chains w ! c0) \<noteq> Pending \<longrightarrow>
            (\<exists>n. \<forall>m \<ge> n. listeners_of (ticks m w) = [])"
  proof (intro allI impI)
    fix es0 eagerInit c0
    assume a: "calm_run es0 \<and> w = run es0 (dPromiseFunction eagerInit) \<and>
            promise po = Some c0 \<and> p0 (chains w ! c0) \<noteq> Pending"
    then have "wf_world w" using wf_world_reachable by blast
    from listeners_cleared_for_good[OF this assms, of c0] a
    show "\<exists>n. \<forall>m \<ge> n. listeners_of (ticks m w) = []" by blast
  qed
  from 1 2 3 4 5 6 7 show ?thesis by blast
qed

theorem listeners_cleared_witness:
  "promiseObject (run [OnAbort (Listener 7 None), Call (Behaviour [] ReturnsPending) []]
                    (dPromiseFunction True))
     = Some \<lparr>abortListeners = [Listener 7 None], isPending = True, error = JUndefined,
             result = JUndefined, promise = Some 0, resolve = Some 0, reject = Some 0\<rparr>
   \<and> listeners_of (run_job (FinallyJob 0 (Fulfilled (JNum 1)))
        (run [OnAbort (Listener 7 None), Call (Behaviour [] ReturnsPending) []]
           (dPromiseFunction True))) = []
   \<and> (\<exists>fs. fired (run [Call (Behaviour [] ReturnsPending) [], OnAbort (Listener 8 None), Abort]
                (run_job (FinallyJob 0 (Fulfilled (JNum 1)))
                  (run [OnAbort (Listener 7 None), Call (Behaviour [] ReturnsPending) []]
                     (dPromiseFunction True))))
             = fired (run [OnAbort (Listener 7 None), Call (Behaviour [] ReturnsPending) []]
                        (dPromiseFunction True)) @ fs \<and>
            set fs \<subseteq> set (registered [Call (Behaviour [] ReturnsPending) [],
                                       OnAbort (Listener 8 None), Abort]))
   \<and> fired (run [Call (Behaviour [] ReturnsPending) [], OnAbort (Listener 8 None), Abort]
                (run_job (FinallyJob 0 (Fulfilled (JNum 1)))
                  (run [OnAbort (Listener 7 None), Call (Behaviour [] ReturnsPending) []]
                     (dPromiseFunction True)))) = [Listener 8 None]
   \<and> all_return [Listener 7 None]
   \<and> listeners_of (step (run [OnAbort (Listener 7 None), Call (Behaviour [] ReturnsPending) []]
                           (dPromiseFunction True)) Abort) = []
   \<and> (\<exists>fs. fired (run [Tick, Tick, Tick, Tick, Tick, Tick, Tick,
                        Call (Behaviour [] ReturnsPending) [], Abort]
                (step (run [OnAbort (Listener 7 None), Call (Behaviour [] ReturnsPending) []]
                           (dPromiseFunction True)) Abort))
             = fired (run [OnAbort (Listener 7 None), Call (Behaviour [] ReturnsPending) []]
                        (dPromiseFunction True)) @ [Listener 7 None] @ fs \<and>
            set fs \<subseteq> set (registered [Tick, Tick, Tick, Tick, Tick, Tick, Tick,
                        Call (Behaviour [] ReturnsPending) [], Abort]))"
proof -
  let ?w = "run [OnAbort (Listener 7 None), Call (Behaviour [] ReturnsPending) []]
              (dPromiseFunction True)"
  let ?po = "\<lparr>abortListeners = [Listener 7 None], isPending = True, error = JUndefined,
             result = JUndefined, promise = Some (0::nat), resolve = Some (0::nat),
             reject = Some (0::nat)\<rparr>"
  let ?es1 = "[Call (Behaviour [] ReturnsPending) [], OnAbort (Listener 8 None), Abort]"
  let ?es2 = "[Tick, Tick, Tick, Tick, Tick, Tick, Tick,
               Call (Behaviour [] ReturnsPending) [], Abort]"
  have a: "promiseObject ?w = Some ?po"
    by (simp add: eval_defs)
  have b: "fired (run ?es1 (run_job (FinallyJob 0 (Fulfilled (JNum 1))) ?w))
             = [Listener 8 None]"
    by (simp add: eval_defs)
  have r: "all_return [Listener 7 None]" by (simp add: all_return_def)
  have p: "isPending ?po \<and> all_return (abortListeners ?po)" using r by simp
  note T1 = listeners_cleared_on_every_settlement
         [OF a, of 0 "Fulfilled (JNum 1)" ?es1 Tick]
  note T2 = listeners_cleared_on_every_settlement
         [OF a, of 0 "Fulfilled (JNum 1)" ?es2 Tick]
  from T1 have 1: "listeners_of (run_job (FinallyJob 0 (Fulfilled (JNum 1))) ?w) = []"
    and 2: "\<exists>fs. fired (run ?es1 (run_job (FinallyJob 0 (Fulfilled (JNum 1))) ?w))
                   = fired ?w @ fs \<and> set fs \<subseteq> set (registered ?es1)"
    by blast+
  from T2 p have 3: "listeners_of (step ?w Abort) = []"
    and 4: "\<exists>fs. fired (run ?es2 (step ?w Abort)) = fired ?w @ abortListeners ?po @ fs \<and>
                  set fs \<subseteq> set (registered ?es2)"
    by blast+
  from 4 have 5: "\<exists>fs. fired (run ?es2 (step ?w Abort)) = fired ?w @ [Listener 7 None] @ fs \<and>
                  set fs \<subseteq> set (registered ?es2)"
    by simp
  from a 1 2 b r 3 5 show ?thesis by blast
qed

text \<open>
  The claim as stated fails.  A listener is called for a call that settles
  normally when \<open>abort\<close> is made after the reaction of the target's promise
  has resolved \<open>p0\<close> and before the callback of \<open>finally\<close> has cleared the
  pending flag: the flag is still set, so \<open>abortPromise\<close> calls the listener,
  while \<open>reject\<close> has no effect any more and the call is fulfilled.  Here
  the code that fulfils the target's promise queues the abort as a microtask
  right afterwards, so that it runs behind the reaction of that promise.
\<close>

theorem listener_fires_for_call_that_settles_normally:
  "isPromisePending (run [OnAbort (Listener 7 None),
                          Call (Behaviour [] ReturnsPending) [JStr ''a''],
                          SettleOp 0 (Fulfilled (JNum 1)), Tick] (dPromiseFunction True))
     = Inr True
   \<and> fired (run [OnAbort (Listener 7 None), Call (Behaviour [] ReturnsPending) [JStr ''a''],
                 SettleOp 0 (Fulfilled (JNum 1)), Tick] (dPromiseFunction True)) = []
   \<and> fired (run [OnAbort (Listener 7 None), Call (Behaviour [] ReturnsPending) [JStr ''a''],
                 SettleOp 0 (Fulfilled (JNum 1)), Tick, Abort,
                 Tick, Tick, Tick, Tick, Tick, Tick] (dPromiseFunction True))
       = [Listener 7 None]
   \<and> map p3 (chains (run [OnAbort (Listener 7 None),
                 Call (Behaviour [] ReturnsPending) [JStr ''a''],
                 SettleOp 0 (Fulfilled (JNum 1)), Tick, Abort,
                 Tick, Tick, Tick, Tick, Tick, Tick] (dPromiseFunction True)))
       = [Settled (Fulfilled (JNum 1))]
   \<and> getPromiseResult (run [OnAbort (Listener 7 None),
                 Call (Behaviour [] ReturnsPending) [JStr ''a''],
                 SettleOp 0 (Fulfilled (JNum 1)), Tick, Abort,
                 Tick, Tick, Tick, Tick, Tick, Tick] (dPromiseFunction True)) = Inr (JNum 1)
   \<and> getPromiseError (run [OnAbort (Listener 7 None),
                 Call (Behaviour [] ReturnsPending) [JStr ''a''],
                 SettleOp 0 (Fulfilled (JNum 1)), Tick, Abort,
                 Tick, Tick, Tick, Tick, Tick, Tick] (dPromiseFunction True)) = Inr JUndefined"
  by (simp add: eval_defs)

text \<open>
  The listeners must return: when one throws, \<open>abortPromise\<close> is left before
  the list is emptied and before \<open>reject\<close> is called.  The call stays pending,
  the list stays, and a second abort calls the first listener again.
\<close>

lemma throwing_listener_stops_abort:
  "abort (run [OnAbort (Listener 1 None), OnAbort (Listener 2 (Some (JError ''boom''))),
               OnAbort (Listener 3 None), Call (Behaviour [] ReturnsPending) []]
            (dPromiseFunction True))
     = Inr (Some (JError ''boom''),
            (run [OnAbort (Listener 1 None), OnAbort (Listener 2 (Some (JError ''boom''))),
                  OnAbort (Listener 3 None), Call (Behaviour [] ReturnsPending) []]
               (dPromiseFunction True))
            \<lparr>fired := [Listener 1 None, Listener 2 (Some (JError ''boom''))]\<rparr>)
   \<and> fired (run [OnAbort (Listener 1 None), OnAbort (Listener 2 (Some (JError ''boom''))),
                 OnAbort (Listener 3 None), Call (Behaviour [] ReturnsPending) [],
                 Abort, Abort, Tick, Tick, Tick] (dPromiseFunction True))
       = [Listener 1 None, Listener 2 (Some (JError ''boom'')),
          Listener 1 None, Listener 2 (Some (JError ''boom''))]
   \<and> isPromisePending (run [OnAbort (Listener 1 None),
                 OnAbort (Listener 2 (Some (JError ''boom''))),
                 OnAbort (Listener 3 None), Call (Behaviour [] ReturnsPending) [],
                 Abort, Abort, Tick, Tick, Tick] (dPromiseFunction True)) = Inr True
   \<and> map p0 (chains (run [OnAbort (Listener 1 None),
                 OnAbort (Listener 2 (Some (JError ''boom''))),
                 OnAbort (Listener 3 None), Call (Behaviour [] ReturnsPending) [],
                 Abort, Abort, Tick, Tick, Tick] (dPromiseFunction True))) = [Pending]"
  by (simp add: eval_defs)

section \<open>Abort\<close>








end
